theory Spec2Isabelle
  imports Main "HOL-Library.Word"
begin

section \<open>Day 7, part 2: branching paths through a grid (src/07/day07.c)\<close>

text \<open>
  The program keeps a frontier of in-flight paths, advances every path by one row per
  generation, splits a path at a deflector cell \<open>^\<close>, and records the signature of
  every path that leaves the grid in a chained hash set. The model below follows
  \<open>day07.c\<close> function by function.

  Every C array access is checked in the model: an access outside the array is the
  value \<open>Inl\<close> of a fault, and every function that can reach one returns
  \<open>fault + result\<close>. The \<open>int\<close> product \<open>paths->size * 2\<close>, the capacity of the next
  frontier, is checked as well: beyond \<open>INT_MAX\<close> it is the fault \<open>IntOverflow\<close>. The
  other counters are integers without a bound of their own, because a generation that
  passes this check keeps them in range (\<open>generation_counters\<close> below): the next
  frontier holds at most \<open>paths->size * 2\<close> paths, so \<open>add_path\<close> never doubles the
  capacity, and \<open>timeline_count\<close> and the \<open>size\<close> of the hash set grow by at most
  \<open>paths->size\<close>; what \<open>part2\<close> returns on a valid grid lies within \<open>int\<close>
  (\<open>part2_within_int\<close>). What is not modelled: \<open>malloc\<close> and \<open>realloc\<close> never fail.
  The progress line printed every tenth row changes no state and is left out.
\<close>

subsection \<open>Constants, types and globals\<close>

definition MAX_GRID_SIZE :: int where
  "MAX_GRID_SIZE = 1000"

definition MAX_SIGNATURE_LEN :: int where
  "MAX_SIGNATURE_LEN = 10000"

definition HASH_TABLE_SIZE :: nat where
  "HASH_TABLE_SIZE = 1048576"

text \<open>The largest value of the 32-bit \<open>int\<close>.\<close>

definition INT_MAX :: int where
  "INT_MAX = 2147483647"

datatype fault = GridIndex | SignatureIndex | BufferOverread | IntOverflow

text \<open>
  \<open>struct Path\<close>. The field \<open>signature\<close> holds the bytes \<open>signature[0 .. sig_len)\<close> of
  the C buffer; the terminator written behind them is only read by \<open>printf\<close>.
\<close>

record Path =
  row :: int
  col :: int
  sig_len :: int
  signature :: string

text \<open>
  \<open>struct HashSet\<close>: the bucket array, indexed by the hash, and the element count
  (the field \<open>size\<close>, here \<open>hs_size\<close>). A chain of \<open>HashNode\<close>s is the list of the
  nodes' \<open>signature\<close> buffers, head first; each buffer is the \<open>len + 1\<close> bytes that
  \<open>hash_set_add\<close> allocated.
\<close>

record HashSet =
  buckets :: "nat \<Rightarrow> string list"
  hs_size :: int

text \<open>
  The globals \<open>grid\<close>, \<open>height\<close> and \<open>width\<close>. \<open>grid\<close> is the list of rows that
  \<open>main\<close> copied into the zero-initialised array \<open>char grid[1000][1000]\<close>.
\<close>

record Globals =
  grid :: "string list"
  height :: int
  width :: int

definition NUL :: char where
  "NUL = CHR 0x00"

text \<open>Reading \<open>grid[r][c]\<close>: a byte of a loaded row, or the zero the array started with.\<close>

definition grid_at :: "Globals \<Rightarrow> int \<Rightarrow> int \<Rightarrow> fault + char" where
  "grid_at g r c =
     (if 0 \<le> r \<and> r < MAX_GRID_SIZE \<and> 0 \<le> c \<and> c < MAX_GRID_SIZE then
        Inr (if nat r < length (grid g) \<and> nat c < length (grid g ! nat r)
             then grid g ! nat r ! nat c else NUL)
      else Inl GridIndex)"

text \<open>
  A valid grid: positive height and width, all rows of length \<open>width\<close>, and small
  enough for the array that holds it (a row is stored with its terminator).
\<close>

definition valid_grid :: "Globals \<Rightarrow> bool" where
  "valid_grid g \<longleftrightarrow>
     0 < height g \<and> 0 < width g \<and> height g = int (length (grid g)) \<and>
     (\<forall>r \<in> set (grid g). int (length r) = width g) \<and>
     height g \<le> MAX_GRID_SIZE \<and> width g < MAX_GRID_SIZE"

text \<open>Sequencing of fallible steps: the first fault ends the computation.\<close>

definition and_then :: "fault + 'a \<Rightarrow> ('a \<Rightarrow> fault + 'b) \<Rightarrow> fault + 'b" where
  "and_then m f = (case m of Inl e \<Rightarrow> Inl e | Inr x \<Rightarrow> f x)"

subsection \<open>The hash set\<close>

text \<open>
  \<open>str[i]\<close> is a \<open>char\<close>, converted to \<open>unsigned int\<close> for the addition; \<open>char\<close> is
  signed on the usual targets, so a byte above 127 is sign-extended. For ASCII both
  readings agree.
\<close>

definition char_to_uint :: "char \<Rightarrow> 32 word" where
  "char_to_uint c =
     (let v = (of_char c :: int) in word_of_int (if v < 128 then v else v - 256))"

fun hash_loop :: "32 word \<Rightarrow> string \<Rightarrow> 32 word" where
  "hash_loop hash [] = hash"
| "hash_loop hash (c # str) = hash_loop ((push_bit 5 hash + hash) + char_to_uint c) str"

definition hash_string :: "string \<Rightarrow> int \<Rightarrow> nat" where
  "hash_string str len = unat (hash_loop 5381 (take (nat len) str)) mod HASH_TABLE_SIZE"

definition create_hash_set :: HashSet where
  "create_hash_set = \<lparr>buckets = (\<lambda>_. []), hs_size = 0\<rparr>"

text \<open>
  \<open>memcmp(a, b, n) == 0\<close>, as the comparison runs: byte by byte, ended by the first
  difference. A byte that the comparison needs and that lies behind the end of a buffer
  is a fault. (ISO C asks for \<open>n\<close> readable bytes in both buffers even when an earlier
  byte differs. \<open>part2\<close> never compares against a node buffer shorter than \<open>n\<close>: all
  signatures it records have the same length, as the last section shows.)
\<close>

fun memcmp_eq :: "string \<Rightarrow> string \<Rightarrow> nat \<Rightarrow> fault + bool" where
  "memcmp_eq a b 0 = Inr True"
| "memcmp_eq (x # a) (y # b) (Suc n) = (if x = y then memcmp_eq a b n else Inr False)"
| "memcmp_eq [] b (Suc n) = Inl BufferOverread"
| "memcmp_eq a [] (Suc n) = Inl BufferOverread"

definition byte_at :: "string \<Rightarrow> nat \<Rightarrow> fault + char" where
  "byte_at buf i = (if i < length buf then Inr (buf ! i) else Inl BufferOverread)"

text \<open>
  The test of the chain walk,
  \<open>memcmp(node->signature, str, len) == 0 && node->signature[len] == '\0'\<close>;
  the second operand is evaluated only when the first holds.
\<close>

definition node_matches :: "string \<Rightarrow> string \<Rightarrow> nat \<Rightarrow> fault + bool" where
  "node_matches node_signature str len =
     and_then (memcmp_eq node_signature str len) (\<lambda>same.
       if same then and_then (byte_at node_signature len) (\<lambda>c. Inr (c = NUL))
       else Inr False)"

text \<open>The \<open>while (node != NULL)\<close> loop of \<open>hash_set_contains\<close> and \<open>hash_set_add\<close>.\<close>

fun chain_lookup :: "string list \<Rightarrow> string \<Rightarrow> nat \<Rightarrow> fault + bool" where
  "chain_lookup [] str len = Inr False"
| "chain_lookup (node # next) str len =
     and_then (node_matches node str len) (\<lambda>found.
       if found then Inr True else chain_lookup next str len)"

definition hash_set_contains :: "HashSet \<Rightarrow> string \<Rightarrow> int \<Rightarrow> fault + bool" where
  "hash_set_contains hset str len =
     (if len < 0 \<or> length str < nat len then Inl BufferOverread
      else chain_lookup (buckets hset (hash_string str len)) str (nat len))"

definition hash_set_add :: "HashSet \<Rightarrow> string \<Rightarrow> int \<Rightarrow> fault + (bool \<times> HashSet)" where
  "hash_set_add hset str len =
     (if len < 0 \<or> length str < nat len then Inl BufferOverread
      else
        let hash = hash_string str len in
        and_then (chain_lookup (buckets hset hash) str (nat len)) (\<lambda>found.
          if found then Inr (False, hset)
          else Inr (True,
            hset\<lparr>buckets := (buckets hset)(hash := (take (nat len) str @ [NUL]) # buckets hset hash),
                hs_size := hs_size hset + 1\<rparr>)))"

subsection \<open>The path list\<close>

text \<open>
  \<open>add_path\<close> appends a \<open>Path\<close>; the list grows as needed. It copies \<open>sig_len\<close> bytes
  into the \<open>signature\<close> buffer of \<open>MAX_SIGNATURE_LEN\<close> bytes and writes the terminator
  at index \<open>sig_len\<close>.
\<close>

definition add_path :: "Path list \<Rightarrow> int \<Rightarrow> int \<Rightarrow> string \<Rightarrow> int \<Rightarrow> fault + Path list" where
  "add_path list r c sig len =
     (if 0 \<le> len \<and> len < MAX_SIGNATURE_LEN \<and> nat len \<le> length sig then
        Inr (list @ [\<lparr>row = r, col = c, sig_len = len, signature = take (nat len) sig\<rparr>])
      else Inl SignatureIndex)"

text \<open>
  The local buffer \<open>char new_sig[MAX_SIGNATURE_LEN]\<close>. \<open>copy_signature\<close> is
  \<open>memcpy(new_sig, p->signature, p->sig_len)\<close> and gives the bytes
  \<open>new_sig[0 .. sig_len)\<close>; \<open>store_move\<close> is \<open>new_sig[p->sig_len] = move\<close> and gives the
  bytes \<open>new_sig[0 .. sig_len]\<close>, which are all that \<open>add_path\<close> reads. The second store
  of the deflector case overwrites the byte of the first.
\<close>

definition copy_signature :: "Path \<Rightarrow> fault + string" where
  "copy_signature p =
     (if 0 \<le> sig_len p \<and> sig_len p \<le> MAX_SIGNATURE_LEN \<and> nat (sig_len p) \<le> length (signature p)
      then Inr (take (nat (sig_len p)) (signature p))
      else Inl SignatureIndex)"

definition store_move :: "string \<Rightarrow> int \<Rightarrow> char \<Rightarrow> fault + string" where
  "store_move new_sig i move =
     (if 0 \<le> i \<and> i < MAX_SIGNATURE_LEN then Inr (take (nat i) new_sig @ [move])
      else Inl SignatureIndex)"

subsection \<open>The simulation\<close>

text \<open>The variables that the \<open>for\<close> loop over the frontier updates.\<close>

record Sim =
  new_paths :: "Path list"
  final_states :: HashSet
  timeline_count :: int

text \<open>The body of the \<open>for\<close> loop, for the path \<open>p = paths->data[i]\<close>.\<close>

definition visit :: "Globals \<Rightarrow> Path \<Rightarrow> Sim \<Rightarrow> fault + Sim" where
  "visit g p st =
     (let next_row = row p + 1 in
      if next_row \<ge> height g then
        and_then (hash_set_add (final_states st) (signature p) (sig_len p)) (\<lambda>(added, set').
          Inr (st\<lparr>final_states := set',
                  timeline_count := (if added then timeline_count st + 1 else timeline_count st)\<rparr>))
      else
        and_then (grid_at g next_row (col p)) (\<lambda>next_cell.
          if next_cell = CHR ''^'' then
            let new_len = sig_len p + 1 in
            and_then (copy_signature p) (\<lambda>new_sig.
            and_then (if col p > 0
                      then and_then (store_move new_sig (sig_len p) CHR ''L'') (\<lambda>new_sig.
                             add_path (new_paths st) next_row (col p - 1) new_sig new_len)
                      else Inr (new_paths st)) (\<lambda>l1.
            and_then (if col p < width g - 1
                      then and_then (store_move new_sig (sig_len p) CHR ''R'') (\<lambda>new_sig.
                             add_path l1 next_row (col p + 1) new_sig new_len)
                      else Inr l1) (\<lambda>l2.
            Inr (st\<lparr>new_paths := l2\<rparr>))))
          else
            and_then (copy_signature p) (\<lambda>new_sig.
            and_then (store_move new_sig (sig_len p) CHR ''D'') (\<lambda>new_sig.
            and_then (add_path (new_paths st) next_row (col p) new_sig (sig_len p + 1)) (\<lambda>l.
            Inr (st\<lparr>new_paths := l\<rparr>))))))"

text \<open>The \<open>for\<close> loop over \<open>paths->data[0 .. size)\<close>.\<close>

fun for_paths :: "Globals \<Rightarrow> Path list \<Rightarrow> Sim \<Rightarrow> fault + Sim" where
  "for_paths g [] st = Inr st"
| "for_paths g (p # ps) st = and_then (visit g p st) (for_paths g ps)"

text \<open>The product of two \<open>int\<close>s; a product outside the range of \<open>int\<close> is a fault.\<close>

definition int_mul :: "int \<Rightarrow> int \<Rightarrow> fault + int" where
  "int_mul a b =
     (if - INT_MAX - 1 \<le> a * b \<and> a * b \<le> INT_MAX then Inr (a * b) else Inl IntOverflow)"

text \<open>
  \<open>create_path_list(initial_capacity)\<close> gives the empty list. The capacity is not kept
  in the model: the loop asks for \<open>paths->size * 2\<close>, and a generation appends at most
  two paths for each path of \<open>paths\<close>.
\<close>

definition create_path_list :: "int \<Rightarrow> Path list" where
  "create_path_list initial_capacity = []"

text \<open>One generation: the body of the \<open>while\<close> loop, on the variables
  \<open>paths\<close>, \<open>final_states\<close> and \<open>timeline_count\<close>.\<close>

definition generation :: "Globals \<Rightarrow> Path list \<times> HashSet \<times> int \<Rightarrow> fault + Path list \<times> HashSet \<times> int" where
  "generation g = (\<lambda>(paths, fs, tc).
     and_then (int_mul (int (length paths)) 2) (\<lambda>capacity.
     and_then (for_paths g paths
         \<lparr>new_paths = create_path_list capacity, final_states = fs, timeline_count = tc\<rparr>) (\<lambda>st.
       Inr (new_paths st, final_states st, timeline_count st))))"

text \<open>The state after \<open>k\<close> runs of the loop body.\<close>

fun generations :: "Globals \<Rightarrow> nat \<Rightarrow> Path list \<times> HashSet \<times> int \<Rightarrow> fault + Path list \<times> HashSet \<times> int" where
  "generations g 0 s = Inr s"
| "generations g (Suc k) s = and_then (generation g s) (generations g k)"

lemma int_mul_size:
  "int_mul (int n) 2 = (if int n * 2 \<le> INT_MAX then Inr (int n * 2) else Inl IntOverflow)"
  by (simp add: int_mul_def INT_MAX_def)

text \<open>The measure of the \<open>while\<close> loop: the rows still ahead of the path that is furthest
  from the bottom, and one more while the frontier is not empty.\<close>

definition rows_left :: "Globals \<Rightarrow> Path list \<Rightarrow> nat" where
  "rows_left g paths =
     (if paths = [] then 0 else Suc (Max ((\<lambda>p. nat (height g - row p)) ` set paths)))"

lemma visit_rows:
  assumes "visit g p st = Inr st'" and "q \<in> set (new_paths st')"
  shows "q \<in> set (new_paths st) \<or> (row q = row p + 1 \<and> row p + 1 < height g)"
  using assms
  by (auto simp: visit_def and_then_def add_path_def Let_def
      split: if_splits sum.splits prod.splits)

lemma for_paths_rows:
  "for_paths g ps st = Inr st' \<Longrightarrow> q \<in> set (new_paths st') \<Longrightarrow>
   q \<in> set (new_paths st) \<or> (\<exists>p \<in> set ps. row q = row p + 1 \<and> row p + 1 < height g)"
proof (induction ps arbitrary: st)
  case Nil
  then show ?case by simp
next
  case (Cons p ps)
  from Cons.prems(1) obtain st1 where v: "visit g p st = Inr st1" and f: "for_paths g ps st1 = Inr st'"
    by (auto simp: and_then_def split: sum.splits)
  from Cons.IH [OF f Cons.prems(2)] visit_rows [OF v] show ?case by auto
qed

lemma rows_left_decreases:
  assumes "paths \<noteq> []" and "generation g (paths, fs, tc) = Inr (paths', fs', tc')"
  shows "rows_left g paths' < rows_left g paths"
proof (cases "paths' = []")
  case True
  with assms(1) show ?thesis by (simp add: rows_left_def)
next
  case False
  let ?f = "\<lambda>p. nat (height g - row p)"
  from assms(2) obtain st where
    st: "for_paths g paths \<lparr>new_paths = [], final_states = fs, timeline_count = tc\<rparr> = Inr st"
    and new: "paths' = new_paths st"
    by (auto simp: generation_def create_path_list_def int_mul_size and_then_def split: sum.splits if_splits)
  have "?f q < Max (?f ` set paths)" if "q \<in> set paths'" for q
  proof -
    from for_paths_rows [OF st] that new obtain p where
      p: "p \<in> set paths" "row q = row p + 1" "row p + 1 < height g" by auto
    then have "?f q < ?f p" by simp
    also have "?f p \<le> Max (?f ` set paths)" using p(1) by simp
    finally show ?thesis .
  qed
  then have "Max (?f ` set paths') < Max (?f ` set paths)"
    using False by simp
  with False assms(1) show ?thesis by (simp add: rows_left_def)
qed

text \<open>
  The \<open>while (paths->size > 0)\<close> loop of \<open>part2\<close>. It returns the hash set and the
  counter as they are when the loop ends.
\<close>

function part2_loop :: "Globals \<Rightarrow> Path list \<Rightarrow> HashSet \<Rightarrow> int \<Rightarrow> fault + HashSet \<times> int" where
  "part2_loop g paths fs tc =
     (if paths = [] then Inr (fs, tc)
      else
        (case generation g (paths, fs, tc) of
           Inl e \<Rightarrow> Inl e
         | Inr (paths', fs', tc') \<Rightarrow> part2_loop g paths' fs' tc'))"
  by pat_completeness auto
termination
  by (relation "measure (\<lambda>(g, paths, fs, tc). rows_left g paths)")
     (auto intro: rows_left_decreases)

declare part2_loop.simps [simp del]

text \<open>The frontier that \<open>part2\<close> starts from: \<open>create_path_list(1000)\<close> and
  \<open>add_path(paths, 0, start_col, "", 0)\<close>.\<close>

definition initial_paths :: "int \<Rightarrow> fault + Path list" where
  "initial_paths start_col = add_path (create_path_list 1000) 0 start_col [] 0"

definition part2 :: "Globals \<Rightarrow> int \<Rightarrow> fault + int" where
  "part2 g start_col =
     and_then (initial_paths start_col) (\<lambda>paths.
     and_then (part2_loop g paths create_hash_set 0) (\<lambda>(final_states, timeline_count).
       Inr timeline_count))"

text \<open>
  The scan of \<open>main\<close> for the start column: \<open>start_col\<close> is 0 unless a column of row 0
  below \<open>width\<close> holds \<open>S\<close>; the first such column ends the scan.
\<close>

function start_scan :: "Globals \<Rightarrow> int \<Rightarrow> fault + int" where
  "start_scan g c =
     (if c < width g then
        and_then (grid_at g 0 c) (\<lambda>ch.
          if ch = CHR ''S'' then Inr c else start_scan g (c + 1))
      else Inr 0)"
  by pat_completeness auto
termination
  by (relation "measure (\<lambda>(g, c). nat (width g - c))") auto

declare start_scan.simps [simp del]

definition find_start_col :: "Globals \<Rightarrow> fault + int" where
  "find_start_col g = start_scan g 0"

subsection \<open>The specification's engine and the invariants\<close>

text \<open>The move symbols of a signature.\<close>

definition moves :: "char set" where
  "moves = {CHR ''L'', CHR ''R'', CHR ''D''}"

text \<open>
  The engine as the specification words it (section 4.5), for comparison with the code:
  \<open>cell(row, col)\<close> of the grid contract, the successors of a path in the deflector and
  the pass-through case, the paths that the generation steps produce from the initial
  path while \<open>next_row < height\<close>, and the signatures of the paths in the boundary case
  \<open>next_row \<ge> height\<close>.
\<close>

definition spec_cell :: "Globals \<Rightarrow> int \<Rightarrow> int \<Rightarrow> char" where
  "spec_cell g r c = grid g ! nat r ! nat c"

definition spec_successors :: "Globals \<Rightarrow> Path \<Rightarrow> Path list" where
  "spec_successors g p =
     (let next_row = row p + 1;
          successor = (\<lambda>c move. \<lparr>row = next_row, col = c,
            sig_len = int (length (signature p)) + 1, signature = signature p @ [move]\<rparr>)
      in if spec_cell g next_row (col p) = CHR ''^'' then
           (if col p > 0 then [successor (col p - 1) CHR ''L''] else []) @
           (if col p < width g - 1 then [successor (col p + 1) CHR ''R''] else [])
         else [successor (col p) CHR ''D''])"

inductive spec_path :: "Globals \<Rightarrow> int \<Rightarrow> Path \<Rightarrow> bool" for g start_col where
  start: "spec_path g start_col \<lparr>row = 0, col = start_col, sig_len = 0, signature = []\<rparr>"
| step: "spec_path g start_col p \<Longrightarrow> row p + 1 < height g \<Longrightarrow>
         q \<in> set (spec_successors g p) \<Longrightarrow> spec_path g start_col q"

code_pred spec_path .

definition terminal_signatures :: "Globals \<Rightarrow> int \<Rightarrow> string set" where
  "terminal_signatures g start_col =
     {signature p | p. spec_path g start_col p \<and> row p + 1 \<ge> height g}"

text \<open>What holds of every path of a frontier (shown below).\<close>

definition path_ok :: "Globals \<Rightarrow> Path \<Rightarrow> bool" where
  "path_ok g p \<longleftrightarrow>
     0 \<le> row p \<and> row p < height g \<and> 0 \<le> col p \<and> col p < width g \<and>
     sig_len p = row p \<and> int (length (signature p)) = row p \<and> set (signature p) \<subseteq> moves"

text \<open>The frontier after \<open>k\<close> generations, every path replaced by its successors.\<close>

definition next_frontier :: "Globals \<Rightarrow> Path list \<Rightarrow> Path list" where
  "next_frontier g paths = concat (map (spec_successors g) paths)"

definition spec_frontier :: "Globals \<Rightarrow> int \<Rightarrow> nat \<Rightarrow> Path list" where
  "spec_frontier g start_col k =
     (next_frontier g ^^ k) [\<lparr>row = 0, col = start_col, sig_len = 0, signature = []\<rparr>]"

text \<open>The signatures of the last frontier, the paths of row \<open>height - 1\<close>.\<close>

definition last_signatures :: "Globals \<Rightarrow> int \<Rightarrow> string set" where
  "last_signatures g start_col = signature ` set (spec_frontier g start_col (nat (height g) - 1))"

text \<open>
  The run stays within \<open>int\<close>: in every generation the capacity product
  \<open>paths->size * 2\<close> is at most \<open>INT_MAX\<close>.
\<close>

definition frontiers_fit :: "Globals \<Rightarrow> int \<Rightarrow> bool" where
  "frontiers_fit g start_col \<longleftrightarrow>
     (\<forall>k < nat (height g). int (length (spec_frontier g start_col k)) * 2 \<le> INT_MAX)"

text \<open>The hash set \<open>hset\<close> holds exactly the signatures of the finite set \<open>S\<close>, each once, in the
  bucket of its hash, and \<open>size\<close> counts them.\<close>

definition set_inv :: "HashSet \<Rightarrow> string set \<Rightarrow> bool" where
  "set_inv hset S \<longleftrightarrow>
     finite S \<and> (\<forall>s \<in> S. NUL \<notin> set s) \<and>
     (\<forall>i. distinct (buckets hset i)) \<and>
     (\<forall>i. set (buckets hset i) = (\<lambda>s. s @ [NUL]) ` {s \<in> S. hash_string s (int (length s)) = i}) \<and>
     hs_size hset = int (card S)"

subsection \<open>Dedup-set states, recorded signatures and sample grids\<close>

text \<open>
  The signatures that a hash set records: \<open>s\<close> is recorded when some node of one of the
  \<open>HASH_TABLE_SIZE\<close> chains holds the bytes of \<open>s\<close> followed by the terminator.
\<close>

definition recorded :: "HashSet \<Rightarrow> string set" where
  "recorded hset = {s. \<exists>i < HASH_TABLE_SIZE. s @ [NUL] \<in> set (buckets hset i)}"

text \<open>
  The states a dedup set can be in: the empty set of \<open>create_hash_set\<close>, and what
  \<open>hash_set_add\<close> makes of a state when it is given a signature over \<open>L\<close>, \<open>R\<close>, \<open>D\<close>
  with its length.
\<close>

inductive dedup_state :: "HashSet \<Rightarrow> bool" where
  created: "dedup_state create_hash_set"
| added: "dedup_state hset \<Longrightarrow> set s \<subseteq> moves \<Longrightarrow>
          hash_set_add hset s (int (length s)) = Inr (b, hset') \<Longrightarrow> dedup_state hset'"

text \<open>Scenario B of the specification, a one-row grid, and a grid one column wide with a
  deflector under the start.\<close>

definition scenario_B :: Globals where
  "scenario_B = \<lparr>grid = [''.S.'', ''.^.''], height = 2, width = 3\<rparr>"

definition one_row_S :: Globals where
  "one_row_S = \<lparr>grid = [''S''], height = 1, width = 1\<rparr>"

definition narrow_grid :: Globals where
  "narrow_grid = \<lparr>grid = [''S'', ''^''], height = 2, width = 1\<rparr>"

text \<open>
  A grid of 32 rows and 99 columns: \<open>S\<close> in the middle of row 0 and deflectors
  everywhere below, so that every path splits in two in each of the 31 generations.
\<close>

definition wide_grid :: Globals where
  "wide_grid =
     \<lparr>grid = (replicate 49 CHR ''.'' @ ''S'' @ replicate 49 CHR ''.'') #
               replicate 31 (replicate 99 CHR ''^''),
      height = 32, width = 99\<rparr>"

text \<open>The hash set after the empty signature was added to the empty set.\<close>

definition one_row_final :: HashSet where
  "one_row_final = \<lparr>buckets = (\<lambda>_. [])(5381 := [[NUL]]), hs_size = 1\<rparr>"

subsection \<open>Lookup and insertion\<close>

lemma memcmp_eq_stored:
  "NUL \<notin> set s \<Longrightarrow> NUL \<notin> set t \<Longrightarrow>
   memcmp_eq (t @ [NUL]) s (length s) = Inr (take (length s) t = s)"
proof (induction s arbitrary: t)
  case Nil
  then show ?case by simp
next
  case (Cons y s)
  show ?case
  proof (cases t)
    case Nil
    with Cons.prems show ?thesis by auto
  next
    case (Cons x t')
    with Cons.prems Cons.IH [of t'] show ?thesis by auto
  qed
qed

lemma node_matches_stored:
  assumes "NUL \<notin> set s" "NUL \<notin> set t"
  shows "node_matches (t @ [NUL]) s (length s) = Inr (t = s)"
proof (cases "take (length s) t = s")
  case True
  then have m: "memcmp_eq (t @ [NUL]) s (length s) = Inr True"
    by (simp add: memcmp_eq_stored [OF assms])
  from True obtain r where t: "t = s @ r"
    by (metis append_take_drop_id)
  have "(t @ [NUL]) ! length s = NUL \<longleftrightarrow> r = []"
    using assms(2) t by (cases r) (auto simp: nth_append)
  then have b: "byte_at (t @ [NUL]) (length s) = Inr ((t @ [NUL]) ! length s)"
    and e: "(t @ [NUL]) ! length s = NUL \<longleftrightarrow> t = s"
    using t by (auto simp: byte_at_def)
  show ?thesis
    unfolding node_matches_def m b by (simp add: and_then_def e)
next
  case False
  then have "t \<noteq> s" by auto
  with False show ?thesis
    by (simp add: node_matches_def and_then_def memcmp_eq_stored [OF assms])
qed

lemma chain_lookup_stored:
  assumes "NUL \<notin> set s" and "\<forall>b \<in> set chain. \<exists>t. b = t @ [NUL] \<and> NUL \<notin> set t"
  shows "chain_lookup chain s (length s) = Inr (s @ [NUL] \<in> set chain)"
  using assms(2)
proof (induction chain)
  case Nil
  then show ?case by simp
next
  case (Cons b chain)
  then obtain t where t: "b = t @ [NUL]" "NUL \<notin> set t" by auto
  from Cons have IH: "chain_lookup chain s (length s) = Inr (s @ [NUL] \<in> set chain)" by simp
  show ?case
    by (auto simp: t and_then_def node_matches_stored [OF assms(1) t(2)] IH)
qed

lemma hash_set_add_inv:
  assumes inv: "set_inv hset S" and s: "NUL \<notin> set s"
  shows "\<exists>hset'. hash_set_add hset s (int (length s)) = Inr (s \<notin> S, hset') \<and>
           set_inv hset' (insert s S) \<and> (s \<in> S \<longrightarrow> hset' = hset)"
proof -
  let ?h = "hash_string s (int (length s))"
  have chain: "\<forall>b \<in> set (buckets hset ?h). \<exists>t. b = t @ [NUL] \<and> NUL \<notin> set t"
    using inv by (auto simp: set_inv_def)
  have mem: "s @ [NUL] \<in> set (buckets hset ?h) \<longleftrightarrow> s \<in> S"
    using inv by (auto simp: set_inv_def)
  have look: "chain_lookup (buckets hset ?h) s (length s) = Inr (s \<in> S)"
    using chain_lookup_stored [OF s chain] mem by simp
  show ?thesis
  proof (cases "s \<in> S")
    case True
    then have "insert s S = S" by auto
    with True inv look show ?thesis
      by (simp add: hash_set_add_def and_then_def)
  next
    case False
    let ?hset' = "hset\<lparr>buckets := (buckets hset)(?h := (s @ [NUL]) # buckets hset ?h),
                hs_size := hs_size hset + 1\<rparr>"
    have add: "hash_set_add hset s (int (length s)) = Inr (True, ?hset')"
      using False look by (simp add: hash_set_add_def and_then_def Let_def)
    have fin: "finite S" and sz: "hs_size hset = int (card S)"
      using inv by (auto simp: set_inv_def)
    have "set_inv ?hset' (insert s S)"
      unfolding set_inv_def
    proof (intro conjI allI)
      show "finite (insert s S)" using fin by simp
      show "\<forall>s \<in> insert s S. NUL \<notin> set s" using inv s by (auto simp: set_inv_def)
      show "distinct (buckets ?hset' i)" for i
        using inv mem False by (auto simp: set_inv_def)
      show "set (buckets ?hset' i) =
          (\<lambda>s. s @ [NUL]) ` {s' \<in> insert s S. hash_string s' (int (length s')) = i}" for i
        using inv by (auto simp: set_inv_def)
      show "hs_size ?hset' = int (card (insert s S))"
        using fin sz False by simp
    qed
    with add False show ?thesis by auto
  qed
qed

lemma set_inv_create: "set_inv create_hash_set {}"
  by (simp add: set_inv_def create_hash_set_def)

subsection \<open>One generation\<close>

lemma NUL_notin_moves: "set s \<subseteq> moves \<Longrightarrow> NUL \<notin> set s"
  by (auto simp: moves_def NUL_def)

lemma grid_at_valid:
  assumes "valid_grid g" "0 \<le> r" "r < height g" "0 \<le> c" "c < width g"
  shows "grid_at g r c = Inr (spec_cell g r c)"
proof -
  from assms have r: "nat r < length (grid g)"
    by (simp add: valid_grid_def)
  then have "grid g ! nat r \<in> set (grid g)" by simp
  with assms(1) have "int (length (grid g ! nat r)) = width g"
    by (simp add: valid_grid_def)
  with assms have "nat c < length (grid g ! nat r)"
    by linarith
  with r assms show ?thesis
    by (simp add: grid_at_def spec_cell_def valid_grid_def MAX_GRID_SIZE_def)
qed

lemma path_ok_len:
  assumes "path_ok g p"
  shows "sig_len p = int (length (signature p))" and "row p = int (length (signature p))"
  using assms by (simp_all add: path_ok_def)

lemma copy_signature_ok:
  assumes "valid_grid g" "path_ok g p"
  shows "copy_signature p = Inr (signature p)"
proof -
  have "int (length (signature p)) \<le> MAX_SIGNATURE_LEN"
    using assms by (simp add: path_ok_def valid_grid_def MAX_GRID_SIZE_def MAX_SIGNATURE_LEN_def)
  then show ?thesis
    by (simp add: copy_signature_def path_ok_len(1) [OF assms(2)])
qed

lemma store_move_ok:
  assumes "valid_grid g" "path_ok g p"
  shows "store_move (signature p) (sig_len p) m = Inr (signature p @ [m])"
proof -
  have "int (length (signature p)) < MAX_SIGNATURE_LEN"
    using assms by (simp add: path_ok_def valid_grid_def MAX_GRID_SIZE_def MAX_SIGNATURE_LEN_def)
  then show ?thesis
    by (simp add: store_move_def path_ok_len(1) [OF assms(2)])
qed

lemma add_path_ok:
  assumes "valid_grid g" "path_ok g p"
  shows "add_path l r c (signature p @ [m]) (sig_len p + 1) =
    Inr (l @ [\<lparr>row = r, col = c, sig_len = int (length (signature p)) + 1, signature = signature p @ [m]\<rparr>])"
proof -
  have "int (length (signature p)) + 1 < MAX_SIGNATURE_LEN"
    using assms by (simp add: path_ok_def valid_grid_def MAX_GRID_SIZE_def MAX_SIGNATURE_LEN_def)
  moreover have "nat (int (length (signature p)) + 1) = Suc (length (signature p))"
    by simp
  ultimately show ?thesis
    by (simp add: add_path_def path_ok_len(1) [OF assms(2)])
qed

lemma visit_inner:
  assumes "valid_grid g" "path_ok g p" "row p + 1 < height g"
  shows "visit g p st = Inr (st\<lparr>new_paths := new_paths st @ spec_successors g p\<rparr>)"
proof -
  have cell: "grid_at g (row p + 1) (col p) = Inr (spec_cell g (row p + 1) (col p))"
    using assms by (intro grid_at_valid) (auto simp: path_ok_def)
  show ?thesis
    using assms(3)
    by (simp add: visit_def cell and_then_def spec_successors_def Let_def
        copy_signature_ok [OF assms(1,2)] store_move_ok [OF assms(1,2)]
        add_path_ok [OF assms(1,2)])
qed

lemma successors_ok:
  assumes "path_ok g p" "row p + 1 < height g" "q \<in> set (spec_successors g p)"
  shows "path_ok g q \<and> row q = row p + 1"
  using assms
  by (auto simp: spec_successors_def path_ok_def moves_def Let_def split: if_splits)

lemma for_paths_inner:
  assumes "valid_grid g"
  shows "\<forall>p \<in> set ps. path_ok g p \<and> row p + 1 < height g \<Longrightarrow>
    for_paths g ps st = Inr (st\<lparr>new_paths := new_paths st @ next_frontier g ps\<rparr>)"
proof (induction ps arbitrary: st)
  case Nil
  then show ?case by (simp add: next_frontier_def)
next
  case (Cons p ps)
  then have v: "visit g p st = Inr (st\<lparr>new_paths := new_paths st @ spec_successors g p\<rparr>)"
    by (intro visit_inner [OF assms]) auto
  from Cons show ?case
    by (simp add: v and_then_def next_frontier_def)
qed

lemma visit_exit:
  assumes "height g \<le> row p + 1" "sig_len p = int (length (signature p))"
    "NUL \<notin> set (signature p)" "set_inv (final_states st) S" "timeline_count st = int (card S)"
  shows "\<exists>st'. visit g p st = Inr st' \<and> new_paths st' = new_paths st \<and>
    set_inv (final_states st') (insert (signature p) S) \<and>
    timeline_count st' = int (card (insert (signature p) S))"
proof -
  from hash_set_add_inv [OF assms(4) assms(3)] obtain hset' where
    add: "hash_set_add (final_states st) (signature p) (int (length (signature p))) =
      Inr (signature p \<notin> S, hset')"
    and inv: "set_inv hset' (insert (signature p) S)" by blast
  have fin: "finite S" using assms(4) by (simp add: set_inv_def)
  have "int (card (insert (signature p) S)) =
      (if signature p \<notin> S then timeline_count st + 1 else timeline_count st)"
    using fin assms(5) by (simp add: insert_absorb)
  with assms(1,2) add inv show ?thesis
    by (simp add: visit_def and_then_def)
qed

lemma for_paths_exit:
  "\<forall>p \<in> set ps. height g \<le> row p + 1 \<and> sig_len p = int (length (signature p)) \<and>
      NUL \<notin> set (signature p) \<Longrightarrow>
   set_inv (final_states st) S \<Longrightarrow> timeline_count st = int (card S) \<Longrightarrow>
   \<exists>st'. for_paths g ps st = Inr st' \<and> new_paths st' = new_paths st \<and>
     set_inv (final_states st') (S \<union> signature ` set ps) \<and>
     timeline_count st' = int (card (S \<union> signature ` set ps))"
proof (induction ps arbitrary: st S)
  case Nil
  then show ?case by simp
next
  case (Cons p ps)
  from Cons.prems obtain st1 where v: "visit g p st = Inr st1"
    and n1: "new_paths st1 = new_paths st"
    and i1: "set_inv (final_states st1) (insert (signature p) S)"
    and c1: "timeline_count st1 = int (card (insert (signature p) S))"
    using visit_exit [of g p st S] by auto
  from Cons.prems(1) have "\<forall>p \<in> set ps. height g \<le> row p + 1 \<and>
      sig_len p = int (length (signature p)) \<and> NUL \<notin> set (signature p)" by simp
  from Cons.IH [OF this i1 c1] obtain st' where
    "for_paths g ps st1 = Inr st'" "new_paths st' = new_paths st1"
    "set_inv (final_states st') (insert (signature p) S \<union> signature ` set ps)"
    "timeline_count st' = int (card (insert (signature p) S \<union> signature ` set ps))"
    by blast
  with v n1 show ?case
    by (simp add: and_then_def)
qed

subsection \<open>The run of the loop\<close>

lemma and_then_assoc: "and_then (and_then m f) h = and_then m (\<lambda>x. and_then (f x) h)"
  by (simp add: and_then_def split: sum.splits)

lemma and_then_Inr [simp]: "and_then (Inr x) f = f x"
  by (simp add: and_then_def)

lemma generation_inner:
  assumes "valid_grid g" "\<forall>p \<in> set ps. path_ok g p \<and> row p + 1 < height g"
    and "int (length ps) * 2 \<le> INT_MAX"
  shows "generation g (ps, fs, tc) = Inr (next_frontier g ps, fs, tc)"
  using assms(3) by (simp add: generation_def create_path_list_def int_mul_size for_paths_inner [OF assms(1,2)])

lemma generation_overflow:
  "INT_MAX < int (length ps) * 2 \<Longrightarrow> generation g (ps, fs, tc) = Inl IntOverflow"
  by (simp add: generation_def create_path_list_def int_mul_size and_then_def)

lemma generation_fits:
  "generation g (ps, fs, tc) = Inr s \<Longrightarrow> int (length ps) * 2 \<le> INT_MAX"
  by (simp add: generation_def create_path_list_def int_mul_size and_then_def split: if_splits)

lemma generation_exit:
  assumes "\<forall>p \<in> set ps. height g \<le> row p + 1 \<and> sig_len p = int (length (signature p)) \<and>
      NUL \<notin> set (signature p)"
    and "set_inv fs S" and "tc = int (card S)" and "int (length ps) * 2 \<le> INT_MAX"
  shows "\<exists>fs'. generation g (ps, fs, tc) = Inr ([], fs', int (card (S \<union> signature ` set ps))) \<and>
     set_inv fs' (S \<union> signature ` set ps)"
proof -
  let ?st = "\<lparr>new_paths = [], final_states = fs, timeline_count = tc\<rparr>"
  from for_paths_exit [of ps g ?st S] assms obtain st' where
    "for_paths g ps ?st = Inr st'" "new_paths st' = []"
    "set_inv (final_states st') (S \<union> signature ` set ps)"
    "timeline_count st' = int (card (S \<union> signature ` set ps))"
    by auto
  with assms(4) show ?thesis
    by (simp add: generation_def create_path_list_def int_mul_size)
qed

lemma generation_empty: "generation g ([], fs, tc) = Inr ([], fs, tc)"
  by (simp add: generation_def create_path_list_def int_mul_size INT_MAX_def)

lemma generations_add:
  "generations g (j + k) s = and_then (generations g j s) (generations g k)"
proof (induction j arbitrary: s)
  case 0
  then show ?case by simp
next
  case (Suc j)
  then have "generations g (j + k) = (\<lambda>x. and_then (generations g j x) (generations g k))"
    by (intro ext)
  then show ?case by (simp add: and_then_assoc)
qed

lemma valid_grid_height: "valid_grid g \<Longrightarrow> 0 < height g"
  by (auto simp: valid_grid_def)

lemma spec_frontier_Suc:
  "spec_frontier g start_col (Suc k) = next_frontier g (spec_frontier g start_col k)"
  by (simp add: spec_frontier_def)

lemma frontier_ok:
  assumes "valid_grid g" "0 \<le> start_col" "start_col < width g"
  shows "int k < height g \<Longrightarrow> p \<in> set (spec_frontier g start_col k) \<Longrightarrow>
    path_ok g p \<and> row p = int k"
proof (induction k arbitrary: p)
  case 0
  with assms show ?case
    by (simp add: spec_frontier_def path_ok_def valid_grid_def)
next
  case (Suc k)
  from Suc.prems(2) obtain q where q: "q \<in> set (spec_frontier g start_col k)"
    and p: "p \<in> set (spec_successors g q)"
    by (auto simp: spec_frontier_Suc next_frontier_def)
  from Suc.prems(1) Suc.IH [OF _ q] have "path_ok g q" "row q = int k" by simp_all
  with successors_ok [of g q p] p Suc.prems(1) show ?case by simp
qed

lemma generations_inner:
  assumes "valid_grid g" "0 \<le> start_col" "start_col < width g"
  shows "int (j + k) < height g \<Longrightarrow>
    \<forall>i. j \<le> i \<and> i < j + k \<longrightarrow> int (length (spec_frontier g start_col i)) * 2 \<le> INT_MAX \<Longrightarrow>
    generations g k (spec_frontier g start_col j, fs, tc) =
      Inr (spec_frontier g start_col (j + k), fs, tc)"
proof (induction k arbitrary: j)
  case 0
  then show ?case by simp
next
  case (Suc k)
  have "\<forall>p \<in> set (spec_frontier g start_col j). path_ok g p \<and> row p + 1 < height g"
    using frontier_ok [OF assms, of j] Suc.prems(1) by auto
  moreover have "int (length (spec_frontier g start_col j)) * 2 \<le> INT_MAX"
    using Suc.prems(2) by simp
  ultimately have "generation g (spec_frontier g start_col j, fs, tc) =
      Inr (spec_frontier g start_col (Suc j), fs, tc)"
    using generation_inner [OF assms(1)] by (simp add: spec_frontier_Suc)
  moreover have "generations g k (spec_frontier g start_col (Suc j), fs, tc) =
      Inr (spec_frontier g start_col (Suc j + k), fs, tc)"
    using Suc.prems by (intro Suc.IH) simp_all
  ultimately show ?case by simp
qed

lemma and_then_Inr_right: "and_then m Inr = m"
  by (simp add: and_then_def split: sum.splits)

lemma generations_one: "generations g (Suc 0) s = generation g s"
proof -
  have "generations g 0 = Inr" by (rule ext) simp
  then show ?thesis by (simp add: and_then_Inr_right)
qed

lemma generations_Suc_last:
  "generations g (Suc k) s = and_then (generations g k s) (generation g)"
proof -
  have "generations g (Suc 0) = generation g"
    by (rule ext) (rule generations_one)
  with generations_add [of g k "Suc 0" s] show ?thesis
    by (simp del: generations.simps)
qed

lemma last_frontier_exits:
  assumes "valid_grid g" "0 \<le> start_col" "start_col < width g"
    and "int k < height g" and "height g \<le> int k + 1"
  shows "\<forall>p \<in> set (spec_frontier g start_col k). height g \<le> row p + 1 \<and>
      sig_len p = int (length (signature p)) \<and> NUL \<notin> set (signature p)"
proof
  fix p assume "p \<in> set (spec_frontier g start_col k)"
  from frontier_ok [OF assms(1-4) this] have ok: "path_ok g p" and r: "row p = int k" by simp_all
  from ok have "set (signature p) \<subseteq> moves" by (simp add: path_ok_def)
  with r assms(5) path_ok_len(1) [OF ok] show "height g \<le> row p + 1 \<and>
      sig_len p = int (length (signature p)) \<and> NUL \<notin> set (signature p)"
    by (auto dest: NUL_notin_moves)
qed

lemma generations_run:
  assumes "valid_grid g" "0 \<le> start_col" "start_col < width g"
    and "frontiers_fit g start_col"
  shows "\<exists>fs. generations g (nat (height g)) (spec_frontier g start_col 0, create_hash_set, 0) =
      Inr ([], fs, int (card (last_signatures g start_col))) \<and>
    set_inv fs (last_signatures g start_col)"
proof -
  have h: "0 < height g" using assms(1) by (rule valid_grid_height)
  then obtain k where hk: "nat (height g) = Suc k"
    by (cases "nat (height g)") auto
  then have k: "int k < height g" and k1: "height g \<le> int k + 1" by auto
  have fit: "int (length (spec_frontier g start_col i)) * 2 \<le> INT_MAX" if "i \<le> k" for i
    using assms(4) that hk by (simp add: frontiers_fit_def)
  have last: "last_signatures g start_col = signature ` set (spec_frontier g start_col k)"
    by (simp add: last_signatures_def hk)
  have inner: "generations g k (spec_frontier g start_col 0, create_hash_set, 0) =
      Inr (spec_frontier g start_col k, create_hash_set, 0)"
    using generations_inner [OF assms(1-3), of 0 k] k fit by simp
  from generation_exit [OF last_frontier_exits [OF assms(1-3) k k1] set_inv_create _ fit, of 0]
  obtain fs where
    "generation g (spec_frontier g start_col k, create_hash_set, 0) =
       Inr ([], fs, int (card (last_signatures g start_col)))"
    "set_inv fs (last_signatures g start_col)"
    unfolding last by auto
  moreover have "generations g (Suc k) (spec_frontier g start_col 0, create_hash_set, 0) =
      generation g (spec_frontier g start_col k, create_hash_set, 0)"
    unfolding generations_Suc_last inner by simp
  ultimately show ?thesis by (auto simp: hk)
qed

lemma loop_unroll:
  "part2_loop g paths fs tc =
     and_then (generations g k (paths, fs, tc)) (\<lambda>(paths', fs', tc'). part2_loop g paths' fs' tc')"
proof (induction k arbitrary: paths fs tc)
  case 0
  then show ?case by simp
next
  case (Suc k)
  show ?case
  proof (cases "paths = []")
    case True
    with Suc [of "[]" fs tc] show ?thesis
      by (simp add: generation_empty)
  next
    case False
    show ?thesis
    proof (cases "generation g (paths, fs, tc)")
      case (Inl e)
      with False show ?thesis
        by (subst part2_loop.simps) (simp add: and_then_def)
    next
      case (Inr s)
      obtain paths' fs' tc' where s: "s = (paths', fs', tc')"
        by (cases s)
      from False Inr s have "part2_loop g paths fs tc = part2_loop g paths' fs' tc'"
        by (subst part2_loop.simps) simp
      with Inr s Suc [of paths' fs' tc'] show ?thesis by simp
    qed
  qed
qed

lemma spec_path_frontier:
  assumes "valid_grid g" "0 \<le> start_col" "start_col < width g"
  shows "spec_path g start_col p \<Longrightarrow>
    0 \<le> row p \<and> row p < height g \<and> p \<in> set (spec_frontier g start_col (nat (row p)))"
proof (induction rule: spec_path.induct)
  case start
  with valid_grid_height [OF assms(1)] show ?case by (simp add: spec_frontier_def)
next
  case (step p q)
  then have mem: "p \<in> set (spec_frontier g start_col (nat (row p)))" and r: "0 \<le> row p" by simp_all
  from step.hyps(2) r have "int (nat (row p)) < height g" by simp
  from frontier_ok [OF assms this mem] have "path_ok g p" by simp
  from successors_ok [OF this step.hyps(2,3)] have q: "path_ok g q" "row q = row p + 1" by simp_all
  from r q(2) have "nat (row q) = Suc (nat (row p))" by simp
  moreover have "q \<in> set (next_frontier g (spec_frontier g start_col (nat (row p))))"
    using mem step.hyps(3) by (auto simp: next_frontier_def)
  ultimately show ?case
    using q r step.hyps(2) by (simp add: spec_frontier_Suc)
qed

lemma frontier_spec_path:
  assumes "valid_grid g" "0 \<le> start_col" "start_col < width g"
  shows "int k < height g \<Longrightarrow> p \<in> set (spec_frontier g start_col k) \<Longrightarrow> spec_path g start_col p"
proof (induction k arbitrary: p)
  case 0
  then show ?case by (simp add: spec_frontier_def spec_path.start)
next
  case (Suc k)
  from Suc.prems(2) obtain q where q: "q \<in> set (spec_frontier g start_col k)"
    and p: "p \<in> set (spec_successors g q)"
    by (auto simp: spec_frontier_Suc next_frontier_def)
  from Suc.prems(1) have k: "int k < height g" by simp
  from frontier_ok [OF assms k q] Suc.prems(1) have "row q + 1 < height g" by simp
  from spec_path.step [OF Suc.IH [OF k q] this p] show ?case .
qed

lemma terminal_signatures_last:
  assumes "valid_grid g" "0 \<le> start_col" "start_col < width g"
  shows "terminal_signatures g start_col = last_signatures g start_col"
proof -
  let ?k = "nat (height g) - 1"
  have h: "0 < height g" using assms(1) by (rule valid_grid_height)
  then have k: "int ?k < height g" by auto
  have "spec_path g start_col p \<and> height g \<le> row p + 1 \<longleftrightarrow>
      p \<in> set (spec_frontier g start_col ?k)" for p
  proof
    assume a: "spec_path g start_col p \<and> height g \<le> row p + 1"
    with spec_path_frontier [OF assms, of p]
    have "row p < height g" "p \<in> set (spec_frontier g start_col (nat (row p)))" by simp_all
    moreover with a have "nat (row p) = ?k" by linarith
    ultimately show "p \<in> set (spec_frontier g start_col ?k)" by simp
  next
    assume a: "p \<in> set (spec_frontier g start_col ?k)"
    from frontier_ok [OF assms k a] h have "height g \<le> row p + 1" by linarith
    with frontier_spec_path [OF assms k a]
    show "spec_path g start_col p \<and> height g \<le> row p + 1" by simp
  qed
  then show ?thesis
    by (auto simp: terminal_signatures_def last_signatures_def)
qed

lemma initial_paths_eq:
  "initial_paths start_col = Inr (spec_frontier g start_col 0)"
  by (simp add: initial_paths_def create_path_list_def int_mul_size INT_MAX_def add_path_def
      spec_frontier_def MAX_SIGNATURE_LEN_def)

lemma part2_loop_run:
  assumes "valid_grid g" "0 \<le> start_col" "start_col < width g"
    and "frontiers_fit g start_col"
  shows "\<exists>fs. part2_loop g (spec_frontier g start_col 0) create_hash_set 0 =
      Inr (fs, int (card (last_signatures g start_col))) \<and>
    set_inv fs (last_signatures g start_col)"
proof -
  from generations_run [OF assms] obtain fs where
    run: "generations g (nat (height g)) (spec_frontier g start_col 0, create_hash_set, 0) =
      Inr ([], fs, int (card (last_signatures g start_col)))"
    and inv: "set_inv fs (last_signatures g start_col)" by blast
  have "part2_loop g (spec_frontier g start_col 0) create_hash_set 0 =
      part2_loop g [] fs (int (card (last_signatures g start_col)))"
    by (subst loop_unroll [of _ _ _ _ "nat (height g)"]) (simp add: run)
  with inv show ?thesis
    by (auto simp: part2_loop.simps [of _ "[]"])
qed

subsection \<open>Frontiers of the run\<close>

lemma hash_string_less: "hash_string s n < HASH_TABLE_SIZE"
  by (simp add: hash_string_def HASH_TABLE_SIZE_def)

lemma set_inv_recorded:
  assumes "set_inv hset S"
  shows "recorded hset = S"
proof -
  have "(\<exists>i < HASH_TABLE_SIZE. s @ [NUL] \<in> set (buckets hset i)) \<longleftrightarrow> s \<in> S" for s
    using assms hash_string_less [of s "int (length s)"]
    by (auto simp: set_inv_def)
  then show ?thesis by (auto simp: recorded_def)
qed

lemma generations_empty: "generations g k ([], fs, tc) = Inr ([], fs, tc)"
  by (induction k) (simp_all add: generation_empty)

lemma frontier_reached:
  assumes "valid_grid g" "0 \<le> start_col" "start_col < width g"
  shows "generations g k (spec_frontier g start_col 0, create_hash_set, 0) = Inr (paths, fs, tc) \<Longrightarrow>
    paths = (if int k < height g then spec_frontier g start_col k else []) \<and>
    (int k < height g \<longrightarrow> fs = create_hash_set \<and> tc = 0)"
proof (induction k arbitrary: paths fs tc)
  case 0
  with valid_grid_height [OF assms(1)] show ?case by simp
next
  case (Suc k)
  from Suc.prems obtain s where
    a: "generations g k (spec_frontier g start_col 0, create_hash_set, 0) = Inr s"
    and b: "generation g s = Inr (paths, fs, tc)"
    unfolding generations_Suc_last by (auto simp: and_then_def split: sum.splits)
  obtain ps fs0 tc0 where s: "s = (ps, fs0, tc0)" by (cases s)
  from Suc.IH [OF a [unfolded s]] have
    IH: "ps = (if int k < height g then spec_frontier g start_col k else [])"
      "int k < height g \<longrightarrow> fs0 = create_hash_set \<and> tc0 = 0" by simp_all
  show ?case
  proof (cases "int k < height g")
    case False
    with IH b s show ?thesis by (simp add: generation_empty)
  next
    case True
    with IH have ps: "ps = spec_frontier g start_col k" "fs0 = create_hash_set" "tc0 = 0"
      by simp_all
    from generation_fits [OF b [unfolded s]] have fit: "int (length ps) * 2 \<le> INT_MAX" .
    show ?thesis
    proof (cases "int (Suc k) < height g")
      case True
      have "\<forall>p \<in> set ps. path_ok g p \<and> row p + 1 < height g"
        using frontier_ok [OF assms, of k] True unfolding ps by auto
      from generation_inner [OF assms(1) this fit, of fs0 tc0] b s ps True show ?thesis
        by (simp add: spec_frontier_Suc)
    next
      case False
      then have k1: "height g \<le> int k + 1" by simp
      from generation_exit [OF last_frontier_exits [OF assms True k1] set_inv_create _
          fit [unfolded ps], of 0] b s ps False
      show ?thesis by auto
    qed
  qed
qed

lemma frontier_path_ok:
  assumes "valid_grid g" "0 \<le> start_col" "start_col < width g"
    and "initial_paths start_col = Inr paths0"
    and "generations g k (paths0, create_hash_set, 0) = Inr (paths, fs, tc)"
    and "p \<in> set paths"
  shows "path_ok g p \<and> row p = int k"
proof -
  from assms(4) have p0: "paths0 = spec_frontier g start_col 0"
    by (simp add: initial_paths_eq [of _ g])
  from frontier_reached [OF assms(1-3) assms(5) [unfolded p0]]
  have "paths = (if int k < height g then spec_frontier g start_col k else [])"
    by simp
  with assms(6) have "int k < height g" "p \<in> set (spec_frontier g start_col k)"
    by (auto split: if_splits)
  with frontier_ok [OF assms(1-3)] show ?thesis by simp
qed

text \<open>When a frontier outgrows \<open>int\<close>, every later generation and the loop end in the
  overflow.\<close>

lemma generations_overflow:
  assumes "valid_grid g" "0 \<le> start_col" "start_col < width g"
    and "int k < height g"
    and "\<forall>i < k. int (length (spec_frontier g start_col i)) * 2 \<le> INT_MAX"
    and "INT_MAX < int (length (spec_frontier g start_col k)) * 2"
  shows "generations g (Suc k + j) (spec_frontier g start_col 0, create_hash_set, 0) =
    Inl IntOverflow"
proof -
  have "generations g k (spec_frontier g start_col 0, create_hash_set, 0) =
      Inr (spec_frontier g start_col k, create_hash_set, 0)"
    using generations_inner [OF assms(1-3), of 0 k] assms(4,5) by simp
  then have "generations g (Suc k) (spec_frontier g start_col 0, create_hash_set, 0) =
      Inl IntOverflow"
    unfolding generations_Suc_last by (simp add: generation_overflow [OF assms(6)])
  then show ?thesis
    unfolding generations_add by (simp add: and_then_def)
qed

lemma loop_overflow:
  assumes "valid_grid g" "0 \<le> start_col" "start_col < width g"
    and "\<not> frontiers_fit g start_col"
  shows "part2_loop g (spec_frontier g start_col 0) create_hash_set 0 = Inl IntOverflow"
proof -
  let ?big = "\<lambda>k. k < nat (height g) \<and> INT_MAX < int (length (spec_frontier g start_col k)) * 2"
  from assms(4) have "\<exists>k. ?big k"
    by (auto simp: frontiers_fit_def not_le)
  then obtain k where k: "?big k" and least: "\<forall>i < k. \<not> ?big i"
    using exists_least_iff [of ?big] by blast
  from k have kh: "int k < height g" by arith
  from k least have fits: "\<forall>i < k. int (length (spec_frontier g start_col i)) * 2 \<le> INT_MAX"
    by (auto simp: not_less)
  from k have big: "INT_MAX < int (length (spec_frontier g start_col k)) * 2" by simp
  from generations_overflow [OF assms(1-3) kh fits big, of 0]
  have "generations g (Suc k) (spec_frontier g start_col 0, create_hash_set, 0) = Inl IntOverflow"
    by (simp del: generations.simps)
  then show ?thesis
    by (subst loop_unroll [of _ _ _ _ "Suc k"]) (simp add: and_then_def del: generations.simps)
qed

text \<open>What \<open>part2\<close> returns on a valid grid lies within \<open>int\<close>.\<close>

lemma last_signatures_card:
  assumes "valid_grid g" "frontiers_fit g start_col"
  shows "int (card (last_signatures g start_col)) \<le> INT_MAX"
proof -
  let ?last = "spec_frontier g start_col (nat (height g) - 1)"
  have "nat (height g) - 1 < nat (height g)"
    using valid_grid_height [OF assms(1)] by simp
  with assms(2) have "int (length ?last) * 2 \<le> INT_MAX"
    by (simp add: frontiers_fit_def)
  moreover have "card (signature ` set ?last) \<le> length ?last"
    by (rule order_trans [OF card_image_le card_length]) simp
  ultimately show ?thesis
    unfolding last_signatures_def by linarith
qed

lemma part2_within_int:
  assumes "valid_grid g" "0 \<le> start_col" "start_col < width g"
    and "part2 g start_col = Inr n"
  shows "0 \<le> n \<and> n \<le> INT_MAX"
proof (cases "frontiers_fit g start_col")
  case True
  from part2_loop_run [OF assms(1-3) True] assms(4)
  have "n = int (card (last_signatures g start_col))"
    by (auto simp: part2_def initial_paths_eq [of _ g])
  with last_signatures_card [OF assms(1) True] show ?thesis by simp
next
  case False
  from loop_overflow [OF assms(1-3) False] assms(4) show ?thesis
    by (simp add: part2_def initial_paths_eq [of _ g] and_then_def)
qed

text \<open>A frontier at most doubles, so a grid of at most 30 rows stays within \<open>int\<close>.\<close>

lemma spec_successors_length: "length (spec_successors g p) \<le> 2"
  by (simp add: spec_successors_def Let_def)

lemma next_frontier_length: "length (next_frontier g ps) \<le> 2 * length ps"
proof (induction ps)
  case Nil
  then show ?case by (simp add: next_frontier_def)
next
  case (Cons p ps)
  with spec_successors_length [of g p] show ?case
    by (simp add: next_frontier_def)
qed

lemma spec_frontier_length: "length (spec_frontier g start_col k) \<le> 2 ^ k"
proof (induction k)
  case 0
  then show ?case by (simp add: spec_frontier_def)
next
  case (Suc k)
  with next_frontier_length [of g "spec_frontier g start_col k"] show ?case
    by (simp add: spec_frontier_Suc)
qed

lemma small_grids_fit:
  assumes "height g \<le> 30"
  shows "frontiers_fit g start_col"
  unfolding frontiers_fit_def
proof (intro allI impI)
  fix k assume "k < nat (height g)"
  with assms have "k \<le> 29" by simp
  then have "(2::nat) ^ k \<le> 2 ^ 29"
    by (intro power_increasing) simp_all
  with spec_frontier_length [of g start_col k]
  have "length (spec_frontier g start_col k) \<le> 2 ^ 29" by simp
  then show "int (length (spec_frontier g start_col k)) * 2 \<le> INT_MAX"
    by (simp add: INT_MAX_def)
qed

text \<open>The counters of a generation that passed the capacity check.\<close>

lemma visit_counters:
  assumes "visit g p st = Inr st'"
  shows "length (new_paths st') \<le> length (new_paths st) + 2 \<and>
    timeline_count st \<le> timeline_count st' \<and> timeline_count st' \<le> timeline_count st + 1 \<and>
    hs_size (final_states st) \<le> hs_size (final_states st') \<and>
    hs_size (final_states st') \<le> hs_size (final_states st) + 1"
  using assms
  by (auto simp: visit_def and_then_def add_path_def hash_set_add_def Let_def
      split: if_splits sum.splits prod.splits)

lemma for_paths_counters:
  "for_paths g ps st = Inr st' \<Longrightarrow>
    length (new_paths st') \<le> length (new_paths st) + 2 * length ps \<and>
    timeline_count st \<le> timeline_count st' \<and>
    timeline_count st' \<le> timeline_count st + int (length ps) \<and>
    hs_size (final_states st) \<le> hs_size (final_states st') \<and>
    hs_size (final_states st') \<le> hs_size (final_states st) + int (length ps)"
proof (induction ps arbitrary: st)
  case Nil
  then show ?case by simp
next
  case (Cons p ps)
  from Cons.prems obtain st1 where v: "visit g p st = Inr st1" and f: "for_paths g ps st1 = Inr st'"
    by (auto simp: and_then_def split: sum.splits)
  from Cons.IH [OF f] visit_counters [OF v] show ?case by simp
qed

lemma generation_counters:
  assumes "generation g (paths, fs, tc) = Inr (paths', fs', tc')"
  shows "int (length paths') \<le> int (length paths) * 2 \<and> int (length paths) * 2 \<le> INT_MAX \<and>
    tc \<le> tc' \<and> tc' \<le> tc + int (length paths) \<and>
    hs_size fs \<le> hs_size fs' \<and> hs_size fs' \<le> hs_size fs + int (length paths)"
proof -
  from assms obtain st where
    "for_paths g paths \<lparr>new_paths = [], final_states = fs, timeline_count = tc\<rparr> = Inr st"
    "paths' = new_paths st" "fs' = final_states st" "tc' = timeline_count st"
    by (auto simp: generation_def create_path_list_def int_mul_size and_then_def split: sum.splits if_splits)
  with for_paths_counters [OF this(1)] generation_fits [OF assms] show ?thesis by simp
qed

lemma dedup_state_inv: "dedup_state hset \<Longrightarrow> set_inv hset (recorded hset)"
proof (induction rule: dedup_state.induct)
  case created
  from set_inv_create set_inv_recorded [OF set_inv_create] show ?case by simp
next
  case (added hset s b hset')
  from hash_set_add_inv [OF added.IH NUL_notin_moves [OF added.hyps(2)]] added.hyps(3)
  have inv: "set_inv hset' (insert s (recorded hset))" by auto
  with set_inv_recorded [OF inv] show ?case by simp
qed

subsection \<open>Evaluation on the sample grids\<close>

lemma valid_scenario_B: "valid_grid scenario_B"
  by (simp add: valid_grid_def scenario_B_def MAX_GRID_SIZE_def)

lemma valid_one_row_S: "valid_grid one_row_S"
  by (simp add: valid_grid_def one_row_S_def MAX_GRID_SIZE_def)

lemma valid_narrow_grid: "valid_grid narrow_grid"
  by (simp add: valid_grid_def narrow_grid_def MAX_GRID_SIZE_def)

lemma hash_L: "hash_string ''L'' 1 = 177649"
  by (simp add: hash_string_def char_to_uint_def HASH_TABLE_SIZE_def)

lemma hash_R: "hash_string ''R'' 1 = 177655"
  by (simp add: hash_string_def char_to_uint_def HASH_TABLE_SIZE_def)

lemma hash_empty: "hash_string [] 0 = 5381"
  by (simp add: hash_string_def HASH_TABLE_SIZE_def)

lemmas run_defs = generation_def create_path_list_def int_mul_size INT_MAX_def visit_def and_then_def
  add_path_def copy_signature_def
  store_move_def
  grid_at_def hash_set_add_def create_hash_set_def MAX_GRID_SIZE_def MAX_SIGNATURE_LEN_def
  node_matches_def byte_at_def NUL_def Let_def

lemma scenario_B_first:
  "generation scenario_B ([\<lparr>row = 0, col = 1, sig_len = 0, signature = []\<rparr>], create_hash_set, 0) =
     Inr ([\<lparr>row = 1, col = 0, sig_len = 1, signature = ''L''\<rparr>,
           \<lparr>row = 1, col = 2, sig_len = 1, signature = ''R''\<rparr>], create_hash_set, 0)"
  by (simp add: run_defs scenario_B_def)

lemma scenario_B_second:
  "generation scenario_B ([\<lparr>row = 1, col = 0, sig_len = 1, signature = ''L''\<rparr>,
       \<lparr>row = 1, col = 2, sig_len = 1, signature = ''R''\<rparr>], create_hash_set, 0) =
     Inr ([], \<lparr>buckets = (\<lambda>_. [])(177649 := [''L'' @ [NUL]], 177655 := [''R'' @ [NUL]]),
               hs_size = 2\<rparr>, 2)"
  by (simp add: run_defs scenario_B_def hash_L hash_R)

lemma scenario_B_run: "part2 scenario_B 1 = Inr 2"
  by (simp add: part2_def initial_paths_def create_path_list_def int_mul_size INT_MAX_def add_path_def MAX_SIGNATURE_LEN_def and_then_def
      part2_loop.simps [of _ "_ # _"] part2_loop.simps [of _ "[]"]
      scenario_B_first scenario_B_second)

lemma one_row_generation:
  "height g = 1 \<Longrightarrow>
   generation g ([\<lparr>row = 0, col = c, sig_len = 0, signature = []\<rparr>], create_hash_set, 0) =
     Inr ([], one_row_final, 1)"
  by (simp add: run_defs hash_empty one_row_final_def)

lemma recorded_one_row_final: "recorded one_row_final = {[]}"
  by (auto simp: recorded_def one_row_final_def HASH_TABLE_SIZE_def split: if_splits)

lemma prefix_signatures_differ:
  "node_matches (''LR'' @ [NUL]) ''LRD'' 3 = Inr False"
  "node_matches (''LRD'' @ [NUL]) ''LR'' 2 = Inr False"
  "node_matches (''LR'' @ [NUL]) ''LR'' 2 = Inr True"
  by (simp_all add: node_matches_def and_then_def byte_at_def NUL_def numeral_3_eq_3 numeral_2_eq_2)

subsection \<open>The grid whose frontier outgrows \<open>int\<close>\<close>

lemma valid_wide_grid: "valid_grid wide_grid"
  by (auto simp: valid_grid_def wide_grid_def MAX_GRID_SIZE_def)

lemma wide_cell:
  assumes "0 \<le> r" "r < 31" "0 \<le> c" "c < 99"
  shows "spec_cell wide_grid (r + 1) c = CHR ''^''"
proof -
  from assms(1) have "nat (r + 1) = Suc (nat r)" by simp
  moreover from assms have "nat r < 31" "nat c < 99" by simp_all
  ultimately show ?thesis
    by (simp add: spec_cell_def wide_grid_def)
qed

lemma wide_successors:
  assumes "0 \<le> row p" "row p < 31" "0 < col p" "col p < 98"
  shows "\<exists>a b. spec_successors wide_grid p = [a, b] \<and> row a = row p + 1 \<and> row b = row p + 1 \<and>
    col a = col p - 1 \<and> col b = col p + 1"
proof -
  from assms have "spec_cell wide_grid (row p + 1) (col p) = CHR ''^''"
    by (intro wide_cell) simp_all
  moreover have "width wide_grid = 99" by (simp add: wide_grid_def)
  ultimately show ?thesis
    using assms by (simp add: spec_successors_def Let_def)
qed

lemma concat_pairs_length:
  "\<forall>x \<in> set xs. length (f x) = 2 \<Longrightarrow> length (concat (map f xs)) = 2 * length xs"
  by (induction xs) simp_all

lemma wide_frontier:
  "k \<le> 30 \<Longrightarrow> length (spec_frontier wide_grid 49 k) = 2 ^ k \<and>
    (\<forall>p \<in> set (spec_frontier wide_grid 49 k).
       row p = int k \<and> 49 - int k \<le> col p \<and> col p \<le> 49 + int k)"
proof (induction k)
  case 0
  then show ?case by (simp add: spec_frontier_def)
next
  case (Suc k)
  let ?ps = "spec_frontier wide_grid 49 k"
  from Suc have len: "length ?ps = 2 ^ k"
    and pos: "\<forall>p \<in> set ?ps. row p = int k \<and> 49 - int k \<le> col p \<and> col p \<le> 49 + int k"
    by simp_all
  have succ: "\<exists>a b. spec_successors wide_grid p = [a, b] \<and> row a = row p + 1 \<and>
      row b = row p + 1 \<and> col a = col p - 1 \<and> col b = col p + 1" if "p \<in> set ?ps" for p
    using pos that Suc.prems by (intro wide_successors) auto
  then have "\<forall>p \<in> set ?ps. length (spec_successors wide_grid p) = 2"
    by fastforce
  then have "length (spec_frontier wide_grid 49 (Suc k)) = 2 ^ Suc k"
    by (simp add: spec_frontier_Suc next_frontier_def concat_pairs_length len)
  moreover have "row q = int (Suc k) \<and> 49 - int (Suc k) \<le> col q \<and> col q \<le> 49 + int (Suc k)"
    if "q \<in> set (spec_frontier wide_grid 49 (Suc k))" for q
  proof -
    from that obtain p where p: "p \<in> set ?ps" and q: "q \<in> set (spec_successors wide_grid p)"
      by (auto simp: spec_frontier_Suc next_frontier_def)
    from pos p have "row p = int k" "49 - int k \<le> col p" "col p \<le> 49 + int k"
      by auto
    with succ [OF p] q show ?thesis by auto
  qed
  ultimately show ?case by blast
qed

lemma wide_grid_outgrows:
  "(\<forall>i < 30. int (length (spec_frontier wide_grid 49 i)) * 2 \<le> INT_MAX) \<and>
   INT_MAX < int (length (spec_frontier wide_grid 49 30)) * 2"
proof (intro conjI allI impI)
  fix i :: nat assume "i < 30"
  then have "i \<le> 29" by simp
  then have "(2::nat) ^ i \<le> 2 ^ 29"
    by (intro power_increasing) simp_all
  with wide_frontier [of i] \<open>i < 30\<close>
  have "length (spec_frontier wide_grid 49 i) \<le> 2 ^ 29" by simp
  then show "int (length (spec_frontier wide_grid 49 i)) * 2 \<le> INT_MAX"
    by (simp add: INT_MAX_def)
next
  from wide_frontier [of 30] have "length (spec_frontier wide_grid 49 30) = 2 ^ 30" by simp
  then show "INT_MAX < int (length (spec_frontier wide_grid 49 30)) * 2"
    by (simp add: INT_MAX_def)
qed

lemma wide_grid_generations:
  "generations wide_grid (31 + j) (spec_frontier wide_grid 49 0, create_hash_set, 0) =
     Inl IntOverflow"
proof -
  have "int 30 < height wide_grid" "(0::int) \<le> 49" "49 < width wide_grid"
    by (simp_all add: wide_grid_def)
  from generations_overflow [OF valid_wide_grid this(2,3,1), of j] wide_grid_outgrows
  show ?thesis by (simp add: eval_nat_numeral del: generations.simps)
qed

lemma wide_grid_loop:
  "part2_loop wide_grid (spec_frontier wide_grid 49 0) create_hash_set 0 = Inl IntOverflow"
proof -
  have "\<not> frontiers_fit wide_grid 49"
    using wide_grid_outgrows by (auto simp: frontiers_fit_def wide_grid_def not_le intro!: exI [of _ 30])
  moreover have "(0::int) \<le> 49" "49 < width wide_grid"
    by (simp_all add: wide_grid_def)
  ultimately show ?thesis
    using loop_overflow [OF valid_wide_grid] by blast
qed

subsection \<open>The scan for the start column\<close>

lemma grid_at_row0:
  "0 \<le> c \<Longrightarrow> c < MAX_GRID_SIZE \<Longrightarrow> \<exists>ch. grid_at g 0 c = Inr ch"
  by (simp add: grid_at_def MAX_GRID_SIZE_def)

lemma scan_found:
  "width g \<le> MAX_GRID_SIZE \<Longrightarrow> grid_at g 0 c = Inr CHR ''S'' \<Longrightarrow> c < width g \<Longrightarrow>
   0 \<le> c0 \<Longrightarrow> c0 \<le> c \<Longrightarrow> \<forall>c'. c0 \<le> c' \<and> c' < c \<longrightarrow> grid_at g 0 c' \<noteq> Inr CHR ''S'' \<Longrightarrow>
   start_scan g c0 = Inr c"
proof (induction g c0 rule: start_scan.induct)
  case (1 g c0)
  show ?case
  proof (cases "c0 = c")
    case True
    with "1.prems" show ?thesis
      by (subst start_scan.simps) simp
  next
    case False
    with "1.prems" have lt: "c0 < c" "c0 < width g" "c0 < MAX_GRID_SIZE" by auto
    from grid_at_row0 [OF "1.prems"(4) lt(3)] obtain ch where ch: "grid_at g 0 c0 = Inr ch"
      by blast
    with lt(1) "1.prems" have ne: "ch \<noteq> CHR ''S''" by auto
    from lt "1.prems" have "start_scan g (c0 + 1) = Inr c"
      by (intro "1.IH" [OF lt(2) ne]) auto
    with lt ch ne show ?thesis
      by (subst start_scan.simps) simp
  qed
qed

lemma scan_none:
  "width g \<le> MAX_GRID_SIZE \<Longrightarrow> 0 \<le> c0 \<Longrightarrow>
   \<forall>c'. c0 \<le> c' \<and> c' < width g \<longrightarrow> grid_at g 0 c' \<noteq> Inr CHR ''S'' \<Longrightarrow>
   start_scan g c0 = Inr 0"
proof (induction g c0 rule: start_scan.induct)
  case (1 g c0)
  show ?case
  proof (cases "c0 < width g")
    case True
    with "1.prems" have "c0 < MAX_GRID_SIZE" by simp
    from grid_at_row0 [OF "1.prems"(2) this] obtain ch where ch: "grid_at g 0 c0 = Inr ch"
      by blast
    with True "1.prems" have ne: "ch \<noteq> CHR ''S''" by auto
    from "1.prems" have "start_scan g (c0 + 1) = Inr 0"
      by (intro "1.IH" [OF True ne]) auto
    with True ch ne show ?thesis
      by (subst start_scan.simps) simp
  next
    case False
    then show ?thesis
      by (subst start_scan.simps) simp
  qed
qed

lemma row0_at:
  assumes "valid_grid g" "0 \<le> c" "c < width g"
  shows "grid_at g 0 c = Inr (grid g ! 0 ! nat c)"
  using grid_at_valid [OF assms(1) _ valid_grid_height [OF assms(1)] assms(2,3)]
  by (simp add: spec_cell_def)

section \<open>The claims\<close>

text \<open>
  In the theorems below the frontier of generation \<open>k\<close> is the first component of
  \<open>generations g k (paths0, create_hash_set, 0)\<close>, the variables of the \<open>while\<close> loop
  after \<open>k\<close> runs of its body; \<open>loop_unroll\<close> ties it to \<open>part2_loop\<close>.
\<close>

text \<open>
  \<^bold>\<open>C1\<close> as stated speaks of every valid grid. On the grid of 32 rows and 99 columns
  with deflectors everywhere below the start, the frontier of generation 30 holds
  \<open>2 ^ 30\<close> paths, the capacity product \<open>paths->size * 2\<close> leaves \<open>int\<close>, and \<open>part2\<close>
  returns no count.
\<close>

theorem part2_count_counterexample:
  "valid_grid wide_grid \<and> (0::int) \<le> 49 \<and> 49 < width wide_grid \<and>
   part2 wide_grid 49 = Inl IntOverflow \<and>
   part2 wide_grid 49 \<noteq> Inr (int (card (terminal_signatures wide_grid 49)))"
proof -
  have "part2 wide_grid 49 = Inl IntOverflow"
    by (simp add: part2_def initial_paths_eq [of _ wide_grid] wide_grid_loop and_then_def)
  with valid_wide_grid show ?thesis by (simp add: wide_grid_def)
qed

text \<open>
  \<^bold>\<open>C1\<close>, amended. For every valid grid and every start column
  \<open>0 \<le> start_col < width\<close> whose frontiers keep the capacity product
  \<open>paths->size * 2\<close> within \<open>int\<close> (as every grid of at most 30 rows does), \<open>part2\<close>
  returns the number of distinct signatures among the paths that leave the grid (the
  paths of the specification's boundary case, \<open>next_row = row + 1 \<ge> height\<close>); this
  number is at most \<open>INT_MAX\<close> and is the \<open>size\<close> of the dedup set when the loop ends;
  the set records exactly those signatures.
\<close>

theorem part2_counts_terminal_signatures:
  assumes "valid_grid g" and "0 \<le> start_col" and "start_col < width g"
    and "frontiers_fit g start_col"
  shows "finite (terminal_signatures g start_col) \<and>
    part2 g start_col = Inr (int (card (terminal_signatures g start_col))) \<and>
    int (card (terminal_signatures g start_col)) \<le> INT_MAX \<and>
    (\<exists>paths fs tc. initial_paths start_col = Inr paths \<and>
       part2_loop g paths create_hash_set 0 = Inr (fs, tc) \<and>
       tc = int (card (terminal_signatures g start_col)) \<and>
       hs_size fs = tc \<and> recorded fs = terminal_signatures g start_col)"
proof -
  from part2_loop_run [OF assms] obtain fs where
    run: "part2_loop g (spec_frontier g start_col 0) create_hash_set 0 =
      Inr (fs, int (card (terminal_signatures g start_col)))"
    and inv: "set_inv fs (terminal_signatures g start_col)"
    unfolding terminal_signatures_last [OF assms(1-3)] by blast
  from inv have "finite (terminal_signatures g start_col)"
    and "hs_size fs = int (card (terminal_signatures g start_col))"
    by (simp_all add: set_inv_def)
  moreover have "part2 g start_col = Inr (int (card (terminal_signatures g start_col)))"
    by (simp add: part2_def initial_paths_eq [of _ g] run)
  moreover have "int (card (terminal_signatures g start_col)) \<le> INT_MAX"
    unfolding terminal_signatures_last [OF assms(1-3)]
    by (rule last_signatures_card [OF assms(1,4)])
  ultimately show ?thesis
    using run set_inv_recorded [OF inv] initial_paths_eq [of start_col g] by simp
qed

text \<open>On scenario B the theorem gives the count 2.\<close>

theorem part2_counts_terminal_signatures_witness:
  "valid_grid scenario_B \<and> (0::int) \<le> 1 \<and> 1 < width scenario_B \<and>
   frontiers_fit scenario_B 1 \<and>
   part2 scenario_B 1 = Inr (int (card (terminal_signatures scenario_B 1))) \<and>
   card (terminal_signatures scenario_B 1) = 2"
proof -
  have w: "1 < width scenario_B" by (simp add: scenario_B_def)
  have f: "frontiers_fit scenario_B 1"
    by (rule small_grids_fit) (simp add: scenario_B_def)
  from part2_counts_terminal_signatures [OF valid_scenario_B _ w f]
  have "part2 scenario_B 1 = Inr (int (card (terminal_signatures scenario_B 1)))" by simp
  with scenario_B_run valid_scenario_B w f show ?thesis by simp
qed

text \<open>
  \<^bold>\<open>C2.\<close> For every path \<open>p\<close> of a frontier with \<open>next_row = row p + 1 < height\<close>: under a
  deflector the loop body appends the successor at \<open>(next_row, col p - 1)\<close> with
  signature \<open>signature p + L\<close> exactly when \<open>col p > 0\<close>, and then the successor at
  \<open>(next_row, col p + 1)\<close> with \<open>signature p + R\<close> exactly when \<open>col p < width - 1\<close>;
  under any other cell it appends the one successor at \<open>(next_row, col p)\<close> with
  \<open>signature p + D\<close>. Nothing else changes.
\<close>

theorem successors_emitted:
  assumes "valid_grid g" and "0 \<le> start_col" and "start_col < width g"
    and "initial_paths start_col = Inr paths0"
    and "generations g k (paths0, create_hash_set, 0) = Inr (paths, fs, tc)"
    and "p \<in> set paths" and "row p + 1 < height g"
  shows "visit g p st = Inr (st\<lparr>new_paths := new_paths st @
     (if grid_at g (row p + 1) (col p) = Inr CHR ''^'' then
        (if col p > 0
         then [\<lparr>row = row p + 1, col = col p - 1, sig_len = sig_len p + 1,
                 signature = signature p @ ''L''\<rparr>]
         else []) @
        (if col p < width g - 1
         then [\<lparr>row = row p + 1, col = col p + 1, sig_len = sig_len p + 1,
                 signature = signature p @ ''R''\<rparr>]
         else [])
      else [\<lparr>row = row p + 1, col = col p, sig_len = sig_len p + 1,
              signature = signature p @ ''D''\<rparr>])\<rparr>)"
proof -
  from frontier_path_ok [OF assms(1-6)] have ok: "path_ok g p" by simp
  then have cell: "grid_at g (row p + 1) (col p) = Inr (spec_cell g (row p + 1) (col p))"
    using assms(1,7) by (intro grid_at_valid) (auto simp: path_ok_def)
  show ?thesis
    unfolding visit_inner [OF assms(1) ok assms(7)] cell
    by (simp add: spec_successors_def Let_def path_ok_len(1) [OF ok])
qed

text \<open>The start path of scenario B stands over the deflector and gets both successors.\<close>

theorem successors_emitted_witness:
  "valid_grid scenario_B \<and> initial_paths 1 = Inr [\<lparr>row = 0, col = 1, sig_len = 0, signature = []\<rparr>] \<and>
   visit scenario_B \<lparr>row = 0, col = 1, sig_len = 0, signature = []\<rparr>
     \<lparr>new_paths = [], final_states = create_hash_set, timeline_count = 0\<rparr> =
   Inr \<lparr>new_paths = [\<lparr>row = 1, col = 0, sig_len = 1, signature = ''L''\<rparr>,
                       \<lparr>row = 1, col = 2, sig_len = 1, signature = ''R''\<rparr>],
        final_states = create_hash_set, timeline_count = 0\<rparr>"
proof -
  let ?p = "\<lparr>row = 0, col = 1, sig_len = 0, signature = []\<rparr>"
  have i: "initial_paths 1 = Inr [?p]"
    by (simp add: initial_paths_def create_path_list_def int_mul_size INT_MAX_def add_path_def MAX_SIGNATURE_LEN_def)
  have w: "1 < width scenario_B" by (simp add: scenario_B_def)
  have gen: "generations scenario_B 0 ([?p], create_hash_set, 0) = Inr ([?p], create_hash_set, 0)"
    by simp
  have r: "row ?p + 1 < height scenario_B" by (simp add: scenario_B_def)
  from successors_emitted [OF valid_scenario_B _ w i gen _ r,
      of "\<lparr>new_paths = [], final_states = create_hash_set, timeline_count = 0\<rparr>"]
  show ?thesis
    using valid_scenario_B i
    by (simp add: scenario_B_def grid_at_def MAX_GRID_SIZE_def)
qed

text \<open>
  \<^bold>\<open>C3.\<close> For every signature \<open>s\<close> over \<open>L\<close>, \<open>R\<close>, \<open>D\<close> and every state of the dedup
  set: when \<open>s\<close> itself (same bytes, same length) is recorded, \<open>hash_set_add\<close> returns
  false and leaves the set as it is; when it is not, \<open>hash_set_add\<close> returns true and
  the set records \<open>s\<close> in addition. At the boundary the loop body adds 1 to
  \<open>timeline_count\<close> exactly when \<open>hash_set_add\<close> returned true.
\<close>

theorem hash_set_add_exact:
  assumes "dedup_state hset" and "set s \<subseteq> moves"
  shows "(if s \<in> recorded hset then hash_set_add hset s (int (length s)) = Inr (False, hset)
      else \<exists>hset'. hash_set_add hset s (int (length s)) = Inr (True, hset') \<and>
             recorded hset' = insert s (recorded hset)) \<and>
    (\<forall>g p st. height g \<le> row p + 1 \<and> signature p = s \<and> sig_len p = int (length s) \<and>
         final_states st = hset \<longrightarrow>
       (\<exists>was_added hset'. hash_set_add hset s (int (length s)) = Inr (was_added, hset') \<and>
          visit g p st = Inr (st\<lparr>final_states := hset',
            timeline_count := (if was_added then timeline_count st + 1 else timeline_count st)\<rparr>)))"
proof -
  from hash_set_add_inv [OF dedup_state_inv [OF assms(1)] NUL_notin_moves [OF assms(2)]]
  obtain hset' where add: "hash_set_add hset s (int (length s)) = Inr (s \<notin> recorded hset, hset')"
    and inv: "set_inv hset' (insert s (recorded hset))"
    and same: "s \<in> recorded hset \<longrightarrow> hset' = hset" by blast
  have first: "if s \<in> recorded hset then hash_set_add hset s (int (length s)) = Inr (False, hset)
      else \<exists>hset'. hash_set_add hset s (int (length s)) = Inr (True, hset') \<and>
             recorded hset' = insert s (recorded hset)"
    using add same set_inv_recorded [OF inv] by auto
  have "visit g p st = Inr (st\<lparr>final_states := hset',
      timeline_count := (if s \<notin> recorded hset then timeline_count st + 1 else timeline_count st)\<rparr>)"
    if "height g \<le> row p + 1" "signature p = s" "sig_len p = int (length s)" "final_states st = hset"
    for g p st
    using that add by (simp add: visit_def and_then_def)
  with add first show ?thesis by blast
qed

text \<open>Adding \<open>LR\<close> to the empty set.\<close>

theorem hash_set_add_exact_witness:
  "dedup_state create_hash_set \<and> set ''LR'' \<subseteq> moves \<and> recorded create_hash_set = {} \<and>
   (\<exists>hset'. hash_set_add create_hash_set ''LR'' 2 = Inr (True, hset') \<and> recorded hset' = {''LR''})"
proof -
  have m: "set ''LR'' \<subseteq> moves" by (simp add: moves_def)
  have e: "recorded create_hash_set = {}"
    by (simp add: recorded_def create_hash_set_def)
  from hash_set_add_exact [OF dedup_state.created m] e m dedup_state.created
  show ?thesis by simp
qed

text \<open>
  \<^bold>\<open>C4\<close> as stated lets the frontier become empty within \<open>height\<close> generations on
  every valid grid. On the grid of 32 rows and 99 columns the loop never comes to an
  empty frontier: generation 31 needs the capacity \<open>2 ^ 31\<close>, which leaves \<open>int\<close>, and
  so does the state after \<open>height\<close> generations and the loop as a whole.
\<close>

theorem part2_loop_counterexample:
  "valid_grid wide_grid \<and> (0::int) \<le> 49 \<and> 49 < width wide_grid \<and>
   initial_paths 49 = Inr [\<lparr>row = 0, col = 49, sig_len = 0, signature = []\<rparr>] \<and>
   generations wide_grid (nat (height wide_grid))
     ([\<lparr>row = 0, col = 49, sig_len = 0, signature = []\<rparr>], create_hash_set, 0) = Inl IntOverflow \<and>
   part2_loop wide_grid [\<lparr>row = 0, col = 49, sig_len = 0, signature = []\<rparr>] create_hash_set 0 =
     Inl IntOverflow"
proof -
  have f0: "spec_frontier wide_grid 49 0 = [\<lparr>row = 0, col = 49, sig_len = 0, signature = []\<rparr>]"
    by (simp add: spec_frontier_def)
  have "nat (height wide_grid) = 31 + 1" by (simp add: wide_grid_def)
  with wide_grid_generations [of 1] wide_grid_loop initial_paths_eq [of 49 wide_grid]
    valid_wide_grid
  show ?thesis
    unfolding f0 by (simp add: wide_grid_def del: generations.simps)
qed

text \<open>
  \<^bold>\<open>C4\<close>, amended. For every valid grid and start column whose frontiers keep the
  capacity product \<open>paths->size * 2\<close> within \<open>int\<close> (as every grid of at most 30 rows
  does) the loop of \<open>part2\<close> ends: after some \<open>k \<le> height\<close> generations the frontier
  is empty, \<open>part2_loop\<close> returns the state reached there, and \<open>part2\<close> returns its
  counter.
\<close>

theorem part2_loop_terminates:
  assumes "valid_grid g" and "0 \<le> start_col" and "start_col < width g"
    and "frontiers_fit g start_col"
  shows "\<exists>paths0 k fs tc. initial_paths start_col = Inr paths0 \<and> k \<le> nat (height g) \<and>
    generations g k (paths0, create_hash_set, 0) = Inr ([], fs, tc) \<and>
    part2_loop g paths0 create_hash_set 0 = Inr (fs, tc) \<and> part2 g start_col = Inr tc"
proof -
  from generations_run [OF assms] obtain fs where
    run: "generations g (nat (height g)) (spec_frontier g start_col 0, create_hash_set, 0) =
      Inr ([], fs, int (card (last_signatures g start_col)))" by blast
  have loop: "part2_loop g (spec_frontier g start_col 0) create_hash_set 0 =
      Inr (fs, int (card (last_signatures g start_col)))"
    by (subst loop_unroll [of _ _ _ _ "nat (height g)"])
       (simp add: run part2_loop.simps [of _ "[]"])
  then have "part2 g start_col = Inr (int (card (last_signatures g start_col)))"
    by (simp add: part2_def initial_paths_eq [of _ g])
  with run loop initial_paths_eq [of start_col g] show ?thesis by blast
qed

text \<open>Scenario B satisfies the hypotheses.\<close>

theorem part2_loop_terminates_witness:
  "valid_grid scenario_B \<and> (0::int) \<le> 1 \<and> 1 < width scenario_B \<and> frontiers_fit scenario_B 1 \<and>
   (\<exists>paths0 k fs tc. initial_paths 1 = Inr paths0 \<and> k \<le> nat (height scenario_B) \<and>
    generations scenario_B k (paths0, create_hash_set, 0) = Inr ([], fs, tc) \<and>
    part2_loop scenario_B paths0 create_hash_set 0 = Inr (fs, tc) \<and> part2 scenario_B 1 = Inr tc)"
proof -
  have w: "1 < width scenario_B" by (simp add: scenario_B_def)
  have f: "frontiers_fit scenario_B 1"
    by (rule small_grids_fit) (simp add: scenario_B_def)
  from part2_loop_terminates [OF valid_scenario_B _ w f] valid_scenario_B w f
  show ?thesis by simp
qed

text \<open>
  \<^bold>\<open>C5.\<close> A path whose next cell is a deflector and for which neither \<open>col p > 0\<close> nor
  \<open>col p < width - 1\<close> holds produces no successor, and the loop body leaves the dedup
  set and the counter untouched; a frontier of this path alone ends the loop with the
  set and the counter as they were. (The path is one that C can hold: its \<open>sig_len\<close>
  bytes lie in its buffer.)
\<close>

theorem dead_end_not_counted:
  assumes "row p + 1 < height g" and "grid_at g (row p + 1) (col p) = Inr CHR ''^''"
    and "\<not> col p > 0" and "\<not> col p < width g - 1"
    and "0 \<le> sig_len p" and "sig_len p \<le> MAX_SIGNATURE_LEN"
    and "nat (sig_len p) \<le> length (signature p)"
  shows "visit g p st = Inr st \<and> generation g ([p], fs, tc) = Inr ([], fs, tc) \<and>
    part2_loop g [p] fs tc = Inr (fs, tc)"
proof -
  have v: "visit g p st = Inr st" for st
    using assms by (simp add: visit_def and_then_def copy_signature_def)
  then have "generation g ([p], fs, tc) = Inr ([], fs, tc)"
    by (simp add: generation_def create_path_list_def int_mul_size INT_MAX_def)
  with v show ?thesis
    by (simp add: part2_loop.simps [of _ "_ # _"] part2_loop.simps [of _ "[]"])
qed

text \<open>The start path of the grid that is one column wide.\<close>

theorem dead_end_not_counted_witness:
  "row \<lparr>row = 0, col = 0, sig_len = 0, signature = []\<rparr> + 1 < height narrow_grid \<and>
   grid_at narrow_grid 1 0 = Inr CHR ''^'' \<and> width narrow_grid = 1 \<and>
   visit narrow_grid \<lparr>row = 0, col = 0, sig_len = 0, signature = []\<rparr>
     \<lparr>new_paths = [], final_states = create_hash_set, timeline_count = 0\<rparr> =
     Inr \<lparr>new_paths = [], final_states = create_hash_set, timeline_count = 0\<rparr> \<and>
   part2_loop narrow_grid [\<lparr>row = 0, col = 0, sig_len = 0, signature = []\<rparr>] create_hash_set 0 =
     Inr (create_hash_set, 0)"
proof -
  let ?p = "\<lparr>row = 0, col = 0, sig_len = 0, signature = []\<rparr>"
  have a: "row ?p + 1 < height narrow_grid" by (simp add: narrow_grid_def)
  have b: "grid_at narrow_grid (row ?p + 1) (col ?p) = Inr CHR ''^''"
    by (simp add: narrow_grid_def grid_at_def MAX_GRID_SIZE_def)
  have c: "\<not> col ?p > 0" by simp
  have d: "\<not> col ?p < width narrow_grid - 1" by (simp add: narrow_grid_def)
  have e: "sig_len ?p \<le> MAX_SIGNATURE_LEN" by (simp add: MAX_SIGNATURE_LEN_def)
  from dead_end_not_counted [OF a b c d _ e,
      of "\<lparr>new_paths = [], final_states = create_hash_set, timeline_count = 0\<rparr>" create_hash_set 0]
    a b show ?thesis by (simp add: narrow_grid_def)
qed

text \<open>
  \<^bold>\<open>C6.\<close> For a valid grid and \<open>0 \<le> start_col < width\<close>, every path of the frontier
  of every generation that the loop reaches has \<open>0 \<le> row < height\<close>,
  \<open>0 \<le> col < width\<close> and a signature of the symbols \<open>L\<close>, \<open>R\<close>, \<open>D\<close> only.
\<close>

theorem frontier_paths_in_bounds:
  assumes "valid_grid g" and "0 \<le> start_col" and "start_col < width g"
    and "initial_paths start_col = Inr paths0"
    and "generations g k (paths0, create_hash_set, 0) = Inr (paths, fs, tc)"
    and "p \<in> set paths"
  shows "0 \<le> row p \<and> row p < height g \<and> 0 \<le> col p \<and> col p < width g \<and>
    set (signature p) \<subseteq> {CHR ''L'', CHR ''R'', CHR ''D''}"
  using frontier_path_ok [OF assms] by (simp add: path_ok_def moves_def)

text \<open>The frontier of scenario B after one generation.\<close>

theorem frontier_paths_in_bounds_witness:
  "valid_grid scenario_B \<and> (0::int) \<le> 1 \<and> 1 < width scenario_B \<and>
   initial_paths 1 = Inr [\<lparr>row = 0, col = 1, sig_len = 0, signature = []\<rparr>] \<and>
   generations scenario_B 1 ([\<lparr>row = 0, col = 1, sig_len = 0, signature = []\<rparr>], create_hash_set, 0) =
     Inr ([\<lparr>row = 1, col = 0, sig_len = 1, signature = ''L''\<rparr>,
           \<lparr>row = 1, col = 2, sig_len = 1, signature = ''R''\<rparr>], create_hash_set, 0) \<and>
   row \<lparr>row = 1, col = 2, sig_len = 1, signature = ''R''\<rparr> < height scenario_B \<and>
   col \<lparr>row = 1, col = 2, sig_len = 1, signature = ''R''\<rparr> < width scenario_B \<and>
   set (signature \<lparr>row = 1, col = 2, sig_len = 1, signature = ''R''\<rparr>) \<subseteq>
     {CHR ''L'', CHR ''R'', CHR ''D''}"
proof -
  let ?p0 = "\<lparr>row = 0, col = 1, sig_len = 0, signature = []\<rparr>"
  let ?l = "\<lparr>row = 1, col = 0, sig_len = 1, signature = ''L''\<rparr>"
  let ?r = "\<lparr>row = 1, col = 2, sig_len = 1, signature = ''R''\<rparr>"
  have w: "1 < width scenario_B" by (simp add: scenario_B_def)
  have i: "initial_paths 1 = Inr [?p0]"
    by (simp add: initial_paths_def create_path_list_def int_mul_size INT_MAX_def add_path_def MAX_SIGNATURE_LEN_def)
  have gen: "generations scenario_B 1 ([?p0], create_hash_set, 0) =
      Inr ([?l, ?r], create_hash_set, 0)"
    by (simp add: generations_one scenario_B_first)
  have m: "?r \<in> set [?l, ?r]" by simp
  from frontier_paths_in_bounds [OF valid_scenario_B _ w i gen m] valid_scenario_B w i gen
  show ?thesis by simp
qed

text \<open>
  \<^bold>\<open>C7.\<close> The start column that \<open>main\<close> computes is the column of the \<open>S\<close> on row 0
  (the first one, were there several), and 0 when row 0 holds no \<open>S\<close>.
\<close>

theorem start_col_is_S_column:
  assumes "valid_grid g"
  shows "(\<forall>c. 0 \<le> c \<and> c < width g \<and> grid g ! 0 ! nat c = CHR ''S'' \<and>
            (\<forall>c'. 0 \<le> c' \<and> c' < c \<longrightarrow> grid g ! 0 ! nat c' \<noteq> CHR ''S'') \<longrightarrow>
          find_start_col g = Inr c) \<and>
         (CHR ''S'' \<notin> set (grid g ! 0) \<longrightarrow> find_start_col g = Inr 0)"
proof (intro conjI allI impI)
  have w: "width g \<le> MAX_GRID_SIZE" using assms by (auto simp: valid_grid_def)
  {
    fix c
    assume c: "0 \<le> c \<and> c < width g \<and> grid g ! 0 ! nat c = CHR ''S'' \<and>
            (\<forall>c'. 0 \<le> c' \<and> c' < c \<longrightarrow> grid g ! 0 ! nat c' \<noteq> CHR ''S'')"
    then have "grid_at g 0 c = Inr CHR ''S''"
      using row0_at [OF assms, of c] by simp
    moreover have "\<forall>c'. 0 \<le> c' \<and> c' < c \<longrightarrow> grid_at g 0 c' \<noteq> Inr CHR ''S''"
      using c row0_at [OF assms] by auto
    ultimately show "find_start_col g = Inr c"
      unfolding find_start_col_def using c w by (intro scan_found) auto
  }
  assume none: "CHR ''S'' \<notin> set (grid g ! 0)"
  have "grid g ! 0 \<in> set (grid g)"
    using valid_grid_height [OF assms] assms by (auto simp: valid_grid_def)
  then have len: "int (length (grid g ! 0)) = width g"
    using assms by (auto simp: valid_grid_def)
  have "grid_at g 0 c' \<noteq> Inr CHR ''S''" if "0 \<le> c'" "c' < width g" for c'
  proof -
    from that len have "nat c' < length (grid g ! 0)" by linarith
    then have "grid g ! 0 ! nat c' \<in> set (grid g ! 0)" by simp
    with none row0_at [OF assms that] show ?thesis by auto
  qed
  then show "find_start_col g = Inr 0"
    unfolding find_start_col_def using w by (intro scan_none) auto
qed

text \<open>Scenario B has its \<open>S\<close> in column 1; a grid without \<open>S\<close> starts in column 0.\<close>

theorem start_col_is_S_column_witness:
  "valid_grid scenario_B \<and> find_start_col scenario_B = Inr 1 \<and>
   valid_grid \<lparr>grid = [''..'', ''^.''], height = 2, width = 2\<rparr> \<and>
   find_start_col \<lparr>grid = [''..'', ''^.''], height = 2, width = 2\<rparr> = Inr 0"
proof -
  let ?g = "\<lparr>grid = [''..'', ''^.''], height = 2, width = 2\<rparr>"
  have v: "valid_grid ?g" by (simp add: valid_grid_def MAX_GRID_SIZE_def)
  have "\<forall>c' :: int. 0 \<le> c' \<and> c' < 1 \<longrightarrow> c' = 0" by auto
  then have "find_start_col scenario_B = Inr 1"
    using start_col_is_S_column [OF valid_scenario_B] by (simp add: scenario_B_def)
  moreover have "find_start_col ?g = Inr 0"
    using start_col_is_S_column [OF v] by simp
  ultimately show ?thesis using v valid_scenario_B by simp
qed

text \<open>
  \<^bold>\<open>C8.\<close> On scenario B (rows \<open>.S.\<close> and \<open>.^.\<close>, \<open>start_col = 1\<close>) the first generation
  turns the start path into the two paths with signatures \<open>L\<close> and \<open>R\<close>, and \<open>part2\<close>
  returns 2.
\<close>

theorem scenario_B_two_timelines:
  "generation scenario_B ([\<lparr>row = 0, col = 1, sig_len = 0, signature = []\<rparr>], create_hash_set, 0) =
     Inr ([\<lparr>row = 1, col = 0, sig_len = 1, signature = ''L''\<rparr>,
           \<lparr>row = 1, col = 2, sig_len = 1, signature = ''R''\<rparr>], create_hash_set, 0) \<and>
   part2 scenario_B 1 = Inr 2"
  using scenario_B_first scenario_B_run by simp

text \<open>
  \<^bold>\<open>C9.\<close> On every grid of height 1, whatever the start column, \<open>part2\<close> returns 1: the
  start path leaves the grid at once and its empty signature is the one recorded.
\<close>

theorem one_row_counts_one:
  assumes "height g = 1"
  shows "part2 g c = Inr 1 \<and>
    (\<exists>paths0 fs. initial_paths c = Inr paths0 \<and>
       part2_loop g paths0 create_hash_set 0 = Inr (fs, 1) \<and> recorded fs = {[]})"
proof -
  let ?p = "\<lparr>row = 0, col = c, sig_len = 0, signature = []\<rparr>"
  have i: "initial_paths c = Inr [?p]"
    by (simp add: initial_paths_def create_path_list_def int_mul_size INT_MAX_def add_path_def MAX_SIGNATURE_LEN_def)
  have loop: "part2_loop g [?p] create_hash_set 0 = Inr (one_row_final, 1)"
    by (simp add: part2_loop.simps [of _ "_ # _"] part2_loop.simps [of _ "[]"]
        one_row_generation [OF assms])
  then have "part2 g c = Inr 1"
    by (simp add: part2_def i)
  with i loop recorded_one_row_final show ?thesis by simp
qed

text \<open>The grid whose only cell is \<open>S\<close>.\<close>

theorem one_row_counts_one_witness:
  "height one_row_S = 1 \<and> grid one_row_S = [''S''] \<and> part2 one_row_S 0 = Inr 1"
  using one_row_counts_one [of one_row_S 0] by (simp add: one_row_S_def)

text \<open>
  \<^bold>\<open>C10\<close> as stated says that every recorded signature has length \<open>height\<close>. On the
  grid whose only cell is \<open>S\<close> the loop records the empty signature, of length 0, while
  \<open>height\<close> is 1.
\<close>

theorem recorded_length_counterexample:
  "initial_paths 0 = Inr [\<lparr>row = 0, col = 0, sig_len = 0, signature = []\<rparr>] \<and>
   part2_loop one_row_S [\<lparr>row = 0, col = 0, sig_len = 0, signature = []\<rparr>] create_hash_set 0 =
     Inr (one_row_final, 1) \<and>
   [] \<in> recorded one_row_final \<and> hash_set_contains one_row_final [] 0 = Inr True \<and>
   int (length ([] :: string)) \<noteq> height one_row_S"
proof -
  have h: "height one_row_S = 1" by (simp add: one_row_S_def)
  have "[] \<in> recorded one_row_final"
    unfolding recorded_def one_row_final_def
    by (auto simp: HASH_TABLE_SIZE_def intro!: exI [of _ 5381])
  moreover have "hash_set_contains one_row_final [] 0 = Inr True"
    by (simp add: hash_set_contains_def hash_empty one_row_final_def node_matches_def
        and_then_def byte_at_def)
  ultimately show ?thesis
    by (simp add: initial_paths_def create_path_list_def int_mul_size INT_MAX_def add_path_def MAX_SIGNATURE_LEN_def h
        part2_loop.simps [of _ "_ # _"] part2_loop.simps [of _ "[]"] one_row_generation [OF h])
qed

text \<open>
  \<^bold>\<open>C10\<close>, amended. Every path of the frontier of every generation that the loop
  reaches has \<open>sig_len\<close> and the length of its signature equal to its row; the paths
  that leave the grid are those of row \<open>height - 1\<close>, so every signature recorded in
  the dedup set that the loop returns has length \<open>height - 1\<close>.
\<close>

theorem signature_length_is_row:
  assumes "valid_grid g" and "0 \<le> start_col" and "start_col < width g"
    and "initial_paths start_col = Inr paths0"
  shows "(\<forall>k paths fs tc p.
       generations g k (paths0, create_hash_set, 0) = Inr (paths, fs, tc) \<and> p \<in> set paths \<longrightarrow>
       sig_len p = row p \<and> int (length (signature p)) = row p) \<and>
    (\<forall>fs tc s. part2_loop g paths0 create_hash_set 0 = Inr (fs, tc) \<and> s \<in> recorded fs \<longrightarrow>
       int (length s) = height g - 1)"
proof -
  have rows: "sig_len p = row p \<and> int (length (signature p)) = row p"
    if "generations g k (paths0, create_hash_set, 0) = Inr (paths, fs, tc)" "p \<in> set paths"
    for k paths fs tc p
    using frontier_path_ok [OF assms that] by (simp add: path_ok_def)
  have lens: "int (length s) = height g - 1"
    if a: "part2_loop g paths0 create_hash_set 0 = Inr (fs, tc)" "s \<in> recorded fs"
    for fs tc s
  proof -
    from assms(4) have p0: "paths0 = spec_frontier g start_col 0"
      by (simp add: initial_paths_eq [of _ g])
    have fit: "frontiers_fit g start_col"
    proof (rule ccontr)
      assume "\<not> frontiers_fit g start_col"
      from loop_overflow [OF assms(1-3) this] a(1) show False
        unfolding p0 by simp
    qed
    from part2_loop_run [OF assms(1-3) fit] a(1) have
      inv: "set_inv fs (last_signatures g start_col)"
      unfolding p0 by auto
    have h: "0 < height g" using assms(1) by (rule valid_grid_height)
    then have k: "int (nat (height g) - 1) < height g" by auto
    from a(2) set_inv_recorded [OF inv] obtain p where
      p: "p \<in> set (spec_frontier g start_col (nat (height g) - 1))" and s: "s = signature p"
      by (auto simp: last_signatures_def)
    from frontier_ok [OF assms(1-3) k p] h show ?thesis
      unfolding s by (auto simp: path_ok_def)
  qed
  from rows lens show ?thesis by blast
qed

text \<open>On scenario B the recorded signatures \<open>L\<close> and \<open>R\<close> have length 1.\<close>

theorem signature_length_is_row_witness:
  "valid_grid scenario_B \<and> (0::int) \<le> 1 \<and> 1 < width scenario_B \<and>
   initial_paths 1 = Inr [\<lparr>row = 0, col = 1, sig_len = 0, signature = []\<rparr>] \<and>
   part2_loop scenario_B [\<lparr>row = 0, col = 1, sig_len = 0, signature = []\<rparr>] create_hash_set 0 =
     Inr (\<lparr>buckets = (\<lambda>_. [])(177649 := [''L'' @ [NUL]], 177655 := [''R'' @ [NUL]]),
            hs_size = 2\<rparr>, 2) \<and>
   ''R'' \<in> recorded \<lparr>buckets = (\<lambda>_. [])(177649 := [''L'' @ [NUL]], 177655 := [''R'' @ [NUL]]),
            hs_size = 2\<rparr> \<and>
   int (length ''R'') = height scenario_B - 1"
proof -
  let ?p0 = "\<lparr>row = 0, col = 1, sig_len = 0, signature = []\<rparr>"
  let ?fs = "\<lparr>buckets = (\<lambda>_. [])(177649 := [''L'' @ [NUL]], 177655 := [''R'' @ [NUL]]),
            hs_size = 2\<rparr>"
  have w: "1 < width scenario_B" by (simp add: scenario_B_def)
  have i: "initial_paths 1 = Inr [?p0]"
    by (simp add: initial_paths_def create_path_list_def int_mul_size INT_MAX_def add_path_def MAX_SIGNATURE_LEN_def)
  have loop: "part2_loop scenario_B [?p0] create_hash_set 0 = Inr (?fs, 2)"
    by (simp add: part2_loop.simps [of _ "_ # _"] part2_loop.simps [of _ "[]"]
        scenario_B_first scenario_B_second)
  have r: "''R'' \<in> recorded ?fs"
    unfolding recorded_def
    by (auto simp: HASH_TABLE_SIZE_def intro!: exI [of _ 177655])
  have z: "(0::int) \<le> 1" by simp
  from signature_length_is_row [OF valid_scenario_B z w i] loop r
  have "int (length ''R'') = height scenario_B - 1" by blast
  with valid_scenario_B w i loop r show ?thesis by simp
qed

end
